theory Spec2Isabelle
  imports Complex_Main
begin

section \<open>Values\<close>

text \<open>
  The style hooks work on plain JavaScript data: block attributes, theme style
  configuration and React props. A value is \<open>undefined\<close>, \<open>null\<close>, a boolean, a
  number, a string, or a plain object, whose own enumerable properties are kept as an
  association list in insertion order. Numbers are only stored, copied and compared,
  never computed with, so a rational stands for them. Arrays, functions and class
  instances do not occur in style data and are not represented; property names are
  ordinary names (no member of \<open>Object.prototype\<close>, no \<open>length\<close>).
\<close>

datatype jsval =
    JUndefined
  | JNull
  | JBool bool
  | JNum rat
  | JStr string
  | JObj "(string \<times> jsval) list"

type_synonym obj = "(string \<times> jsval) list"

datatype error = TypeError

text \<open>An association list stands for an object when no key occurs twice, at any depth.\<close>

fun wf_val :: "jsval \<Rightarrow> bool" where
  "wf_val (JObj kvs) = (distinct (map fst kvs) \<and> list_all (\<lambda>v. wf_val v) (map snd kvs))"
| "wf_val _ = True"

text \<open>Truthiness, as used by \<open>||\<close> and by \<open>if (source)\<close>.\<close>

fun truthy :: "jsval \<Rightarrow> bool" where
  "truthy JUndefined = False"
| "truthy JNull = False"
| "truthy (JBool b) = b"
| "truthy (JNum n) = (n \<noteq> 0)"
| "truthy (JStr s) = (s \<noteq> [])"
| "truthy (JObj kvs) = True"

text \<open>\<open>object[key]\<close> on a value that is neither \<open>null\<close> nor \<open>undefined\<close>: a missing
  property reads as \<open>undefined\<close>, and so does any of the names used here on a primitive.\<close>

fun member :: "jsval \<Rightarrow> string \<Rightarrow> jsval" where
  "member (JObj kvs) key = (case map_of kvs key of Some v \<Rightarrow> v | None \<Rightarrow> JUndefined)"
| "member _ key = JUndefined"

section \<open>Compiling variable references\<close>

definition VARIABLE_REFERENCE_PREFIX :: string where
  "VARIABLE_REFERENCE_PREFIX = ''var:''"

definition VARIABLE_PATH_SEPARATOR_TOKEN_ATTRIBUTE :: char where
  "VARIABLE_PATH_SEPARATOR_TOKEN_ATTRIBUTE = CHR ''|''"

definition VARIABLE_PATH_SEPARATOR_TOKEN_STYLE :: string where
  "VARIABLE_PATH_SEPARATOR_TOKEN_STYLE = ''--''"

text \<open>\<open>startsWith( string, target )\<close>: the first \<open>target.length\<close> characters are the target.\<close>

definition startsWith :: "string \<Rightarrow> string \<Rightarrow> bool" where
  "startsWith s target = (take (length target) s = target)"

text \<open>\<open>String.prototype.split\<close> with a separator of one character: the pieces between
  the separators, so never an empty list (the empty string gives one empty piece).\<close>

fun split :: "string \<Rightarrow> char \<Rightarrow> string list" where
  "split [] sep = [[]]"
| "split (c # cs) sep =
     (if c = sep then [] # split cs sep
      else (case split cs sep of [] \<Rightarrow> [[c]] | w # ws \<Rightarrow> (c # w) # ws))"

text \<open>\<open>Array.prototype.join\<close> on strings.\<close>

fun join :: "string list \<Rightarrow> string \<Rightarrow> string" where
  "join [] sep = []"
| "join [w] sep = w"
| "join (w # w' # ws) sep = w @ sep @ join (w' # ws) sep"

text \<open>
  \<open>compileStyleValue\<close>. lodash's \<open>startsWith\<close> first converts its argument to a string;
  the string of \<open>undefined\<close>, \<open>null\<close>, a boolean, a number or a plain object never
  starts with \<open>var:\<close>, so every value that is not a string is returned as it is.
\<close>

fun compileStyleValue :: "jsval \<Rightarrow> jsval" where
  "compileStyleValue (JStr uncompiledValue) =
     (if startsWith uncompiledValue VARIABLE_REFERENCE_PREFIX then
        (let variable =
           join (split (drop (length VARIABLE_REFERENCE_PREFIX) uncompiledValue)
                   VARIABLE_PATH_SEPARATOR_TOKEN_ATTRIBUTE)
                VARIABLE_PATH_SEPARATOR_TOKEN_STYLE
         in JStr (''var(--wp--'' @ variable @ '')''))
      else JStr uncompiledValue)"
| "compileStyleValue uncompiledValue = uncompiledValue"

section \<open>Reading style objects by path\<close>

text \<open>lodash \<open>has( object, path )\<close> with an array path: every step of the path is an own
  property of what the step before it reached. An empty path is never present.\<close>

fun has :: "jsval \<Rightarrow> string list \<Rightarrow> bool" where
  "has object [] = False"
| "has (JObj kvs) (key # path) =
     (case map_of kvs key of
        None \<Rightarrow> False
      | Some v \<Rightarrow> path = [] \<or> has v path)"
| "has _ (key # path) = False"

text \<open>lodash \<open>get( object, path )\<close> with an array path: follow the path while the value
  reached is neither \<open>null\<close> nor \<open>undefined\<close>; the result is \<open>undefined\<close> when the walk
  stops early or the path is empty.\<close>

fun get :: "jsval \<Rightarrow> string list \<Rightarrow> jsval" where
  "get object [] = JUndefined"
| "get JUndefined (key # path) = JUndefined"
| "get JNull (key # path) = JUndefined"
| "get object (key # path) =
     (if path = [] then member object key else get (member object key) path)"

text \<open>\<open>object[ key ] = value\<close>: an existing property keeps its place, a new one goes last.\<close>

fun assign :: "(string \<times> 'a) list \<Rightarrow> string \<Rightarrow> 'a \<Rightarrow> (string \<times> 'a) list" where
  "assign [] key v = [(key, v)]"
| "assign ((key', v') # object) key v =
     (if key' = key then (key, v) # object else (key', v') # assign object key v)"

section \<open>Inline styles\<close>

definition mappings :: "(string \<times> string list) list" where
  "mappings =
     [(''lineHeight'', [''typography'', ''lineHeight'']),
      (''fontSize'', [''typography'', ''fontSize'']),
      (''background'', [''color'', ''gradient'']),
      (''backgroundColor'', [''color'', ''background'']),
      (''color'', [''color'', ''text'']),
      (''--wp--color--link'', [''color'', ''link''])]"

text \<open>\<open>getInlineStyles( styles = {} )\<close>: the default applies to \<open>undefined\<close> only; the loop
  over the entries of \<open>mappings\<close> fills \<open>output\<close>.\<close>

definition getInlineStyles :: "jsval \<Rightarrow> obj" where
  "getInlineStyles styles0 =
     (let styles = (if styles0 = JUndefined then JObj [] else styles0)
      in foldl (\<lambda>output (styleKey, objectKey).
                  if has styles objectKey
                  then assign output styleKey (compileStyleValue (get styles objectKey))
                  else output)
           [] mappings)"

section \<open>Own enumerable properties of a source\<close>

fun string_of_nat :: "nat \<Rightarrow> string" where
  "string_of_nat n =
     (if n < 10 then [char_of (48 + n)]
      else string_of_nat (n div 10) @ [char_of (48 + n mod 10)])"

text \<open>What an object spread and lodash's \<open>keysIn\<close> enumerate: the properties of a plain
  object in order, the characters of a string under their decimal indices, and nothing
  for \<open>undefined\<close>, \<open>null\<close>, a boolean or a number.\<close>

fun own_entries :: "jsval \<Rightarrow> obj" where
  "own_entries (JObj kvs) = kvs"
| "own_entries (JStr s) = map (\<lambda>i. (string_of_nat i, JStr [s ! i])) [0..<length s]"
| "own_entries _ = []"

text \<open>\<open>{ ...object, ...source }\<close>, the first part being built already.\<close>

definition spread :: "obj \<Rightarrow> jsval \<Rightarrow> obj" where
  "spread object source = foldl (\<lambda>object (key, v). assign object key v) object (own_entries source)"

section \<open>lodash merge\<close>

text \<open>
  \<open>merge( object, ...sources )\<close> changes \<open>object\<close> in place and returns it; here the new
  contents of \<open>object\<close> are returned. In \<open>assignMergeValue\<close> lodash compares with
  \<open>eq\<close>, which on objects is identity: an object that is already the property's value was
  merged into in place, and storing it again changes nothing, as in this model, where
  storing a value equal to the present one is the identity.
\<close>

definition baseAssignValue :: "obj \<Rightarrow> string \<Rightarrow> jsval \<Rightarrow> obj" where
  "baseAssignValue object key v = assign object key v"

definition assignMergeValue :: "obj \<Rightarrow> string \<Rightarrow> jsval \<Rightarrow> obj" where
  "assignMergeValue object key v =
     (if (v \<noteq> JUndefined \<and> member (JObj object) key \<noteq> v)
         \<or> (v = JUndefined \<and> key \<notin> fst ` set object)
      then baseAssignValue object key v else object)"

text \<open>
  \<open>baseMerge\<close> walks the properties of the source. A source value that is a plain object
  goes through \<open>baseMergeDeep\<close> (the \<open>JObj\<close> branch): the value merged into is the
  destination's own value when that is an object, and a new empty object otherwise. Any
  other source value is handed to \<open>assignMergeValue\<close>.
\<close>

fun baseMerge :: "obj \<Rightarrow> obj \<Rightarrow> obj" where
  "baseMerge object [] = object"
| "baseMerge object ((key, srcValue) # source) =
     baseMerge
       (case srcValue of
          JObj s \<Rightarrow>
            assignMergeValue object key
              (JObj (baseMerge (case member (JObj object) key of JObj d \<Rightarrow> d | _ \<Rightarrow> []) s))
        | _ \<Rightarrow> assignMergeValue object key srcValue)
       source"

text \<open>The sources are applied from left to right; a falsy source is skipped.\<close>

definition merge :: "obj \<Rightarrow> jsval list \<Rightarrow> obj" where
  "merge object sources =
     foldl (\<lambda>object source. if truthy source then baseMerge object (own_entries source) else object)
       object sources"

section \<open>The merged styles of a block\<close>

text \<open>The table of variant predicates, \<open>( { level } ) => level === n\<close>.\<close>

definition selectorMapping :: "(string \<times> (obj \<Rightarrow> bool)) list" where
  "selectorMapping =
     [(''core/heading/h1'', \<lambda>attributes. member (JObj attributes) ''level'' = JNum 1),
      (''core/heading/h2'', \<lambda>attributes. member (JObj attributes) ''level'' = JNum 2),
      (''core/heading/h3'', \<lambda>attributes. member (JObj attributes) ''level'' = JNum 3),
      (''core/heading/h4'', \<lambda>attributes. member (JObj attributes) ''level'' = JNum 4),
      (''core/heading/h5'', \<lambda>attributes. member (JObj attributes) ''level'' = JNum 5),
      (''core/heading/h6'', \<lambda>attributes. member (JObj attributes) ''level'' = JNum 6)]"

text \<open>\<open>merge( accumulator, value.styles )\<close>: reading \<open>styles\<close> of \<open>null\<close> or \<open>undefined\<close>
  is a TypeError.\<close>

fun merge_styles :: "obj \<Rightarrow> jsval \<Rightarrow> error + obj" where
  "merge_styles accumulator JUndefined = Inl TypeError"
| "merge_styles accumulator JNull = Inl TypeError"
| "merge_styles accumulator v = Inr (merge accumulator [member v ''styles''])"

text \<open>The callback of the \<open>reduce\<close>. A selector that extends the block name is looked up
  in \<open>selectorMapping\<close> and the entry is called; calling a missing entry is a TypeError.\<close>

definition selector_callback :: "string \<Rightarrow> obj \<Rightarrow> obj \<Rightarrow> jsval \<Rightarrow> string \<Rightarrow> error + obj" where
  "selector_callback blockName attributes accumulator v selector =
     (if selector = blockName then merge_styles accumulator v
      else if startsWith selector blockName then
        (case map_of selectorMapping selector of
           None \<Rightarrow> Inl TypeError
         | Some predicate \<Rightarrow>
             if predicate attributes then merge_styles accumulator v else Inr accumulator)
      else Inr accumulator)"

text \<open>lodash \<open>reduce\<close> over the properties of a plain object, stopping at an exception.\<close>

fun reduce :: "obj \<Rightarrow> (obj \<Rightarrow> jsval \<Rightarrow> string \<Rightarrow> error + obj) \<Rightarrow> obj \<Rightarrow> error + obj" where
  "reduce [] iteratee accumulator = Inr accumulator"
| "reduce ((key, v) # collection) iteratee accumulator =
     (case iteratee accumulator v key of
        Inl e \<Rightarrow> Inl e
      | Inr accumulator' \<Rightarrow> reduce collection iteratee accumulator')"

text \<open>
  \<open>globalBlockSpecificStyles\<close>. \<open>reduce\<close> returns the initial accumulator for
  \<open>undefined\<close>, \<open>null\<close>, a boolean and a number. It walks a string by index, and the
  index, a number, has no \<open>startsWith\<close> method: a string that is not empty is a TypeError.
\<close>

fun globalBlockSpecificStyles :: "string \<Rightarrow> obj \<Rightarrow> jsval \<Rightarrow> error + obj" where
  "globalBlockSpecificStyles blockName attributes (JObj experimentalGlobalStyles) =
     reduce experimentalGlobalStyles (selector_callback blockName attributes) []"
| "globalBlockSpecificStyles blockName attributes (JStr s) =
     (if s = [] then Inr [] else Inl TypeError)"
| "globalBlockSpecificStyles blockName attributes _ = Inr []"

text \<open>\<open>value || {}\<close>.\<close>

definition or_empty :: "jsval \<Rightarrow> jsval" where
  "or_empty v = (if truthy v then v else JObj [])"

text \<open>\<open>__experimentalGlobalStyles?.global?.styles\<close>.\<close>

definition global_styles :: "jsval \<Rightarrow> jsval" where
  "global_styles experimentalGlobalStyles =
     (if experimentalGlobalStyles = JUndefined \<or> experimentalGlobalStyles = JNull then JUndefined
      else let global = member experimentalGlobalStyles ''global''
           in if global = JUndefined \<or> global = JNull then JUndefined
              else member global ''styles'')"

text \<open>The four sources of the final merge, lowest priority first: the styles of the
  root, the styles inherited from the parent blocks, the styles that target the block,
  and the block's own \<open>style\<close> attribute.\<close>

definition style_layers :: "jsval \<Rightarrow> jsval \<Rightarrow> obj \<Rightarrow> obj \<Rightarrow> jsval list" where
  "style_layers experimentalGlobalStyles globalStylesContext blockSpecific attributes =
     [or_empty (global_styles experimentalGlobalStyles),
      or_empty globalStylesContext,
      JObj blockSpecific,
      or_empty (member (JObj attributes) ''style'')]"

text \<open>
  \<open>globalStylesBlock\<close>, the value computed in \<open>withBlockControls\<close> from the block's name
  and attributes, the \<open>__experimentalGlobalStyles\<close> setting and the value of
  \<open>GlobalStylesContext\<close>: the effective style of the block.
\<close>

definition globalStylesBlock :: "string \<Rightarrow> obj \<Rightarrow> jsval \<Rightarrow> jsval \<Rightarrow> error + obj" where
  "globalStylesBlock blockName attributes experimentalGlobalStyles globalStylesContext =
     (case globalBlockSpecificStyles blockName attributes experimentalGlobalStyles of
        Inl e \<Rightarrow> Inl e
      | Inr blockSpecific \<Rightarrow>
          Inr (merge []
                (style_layers experimentalGlobalStyles globalStylesContext blockSpecific attributes)))"

section \<open>Props of the saved element\<close>

text \<open>\<open>hasBlockSupport\<close> and the three support keys come from other modules and are
  parameters here.\<close>

definition styleSupportKeys :: "'k \<Rightarrow> 'k \<Rightarrow> 'k \<Rightarrow> 'k list" where
  "styleSupportKeys COLOR_SUPPORT_KEY LINE_HEIGHT_SUPPORT_KEY FONT_SIZE_SUPPORT_KEY =
     [COLOR_SUPPORT_KEY, LINE_HEIGHT_SUPPORT_KEY, FONT_SIZE_SUPPORT_KEY]"

definition hasStyleSupport :: "('b \<Rightarrow> 'k \<Rightarrow> bool) \<Rightarrow> 'k list \<Rightarrow> 'b \<Rightarrow> bool" where
  "hasStyleSupport hasBlockSupport keys blockType =
     list_ex (\<lambda>key. hasBlockSupport blockType key) keys"

definition addSaveProps ::
  "('b \<Rightarrow> 'k \<Rightarrow> bool) \<Rightarrow> 'k list \<Rightarrow> obj \<Rightarrow> 'b \<Rightarrow> obj \<Rightarrow> obj" where
  "addSaveProps hasBlockSupport keys props blockType attributes =
     (if \<not> hasStyleSupport hasBlockSupport keys blockType then props
      else
        let style = member (JObj attributes) ''style''
        in assign props ''style''
             (JObj (spread (spread [] (JObj (getInlineStyles style)))
                      (member (JObj props) ''style''))))"

section \<open>Notions used in the statements\<close>

text \<open>A leaf is a value that is neither an object nor \<open>undefined\<close>.\<close>

fun leaf :: "jsval \<Rightarrow> bool" where
  "leaf (JObj kvs) = False"
| "leaf JUndefined = False"
| "leaf _ = True"

text \<open>A layer defines the leaf \<open>v\<close> at a path.\<close>

definition defines_leaf :: "jsval \<Rightarrow> string list \<Rightarrow> jsval \<Rightarrow> bool" where
  "defines_leaf layer path v = (has layer path \<and> get layer path = v \<and> leaf v)"

text \<open>A layer, an object, passes a path when it sets nothing on it: walking down the
  path through its nested objects, a key is missing or holds \<open>undefined\<close> before the
  path ends.\<close>

fun passes :: "jsval \<Rightarrow> string list \<Rightarrow> bool" where
  "passes (JObj kvs) (key # path) =
     (case map_of kvs key of
        None \<Rightarrow> True
      | Some JUndefined \<Rightarrow> True
      | Some (JObj s) \<Rightarrow> path \<noteq> [] \<and> passes (JObj s) path
      | Some _ \<Rightarrow> False)"
| "passes _ _ = False"

text \<open>What a value holds at the end of a path through its nested objects, if the path
  can be walked.\<close>

fun value_at :: "jsval \<Rightarrow> string list \<Rightarrow> jsval option" where
  "value_at v [] = Some v"
| "value_at (JObj kvs) (key # path) =
     (case map_of kvs key of None \<Rightarrow> None | Some x \<Rightarrow> value_at x path)"
| "value_at _ (key # path) = None"

text \<open>The selectors that the description of the block-specific layer lets through: the
  block's own name, and an extension of it whose predicate in \<open>selectorMapping\<close> holds
  of the attributes.\<close>

definition selector_matches :: "string \<Rightarrow> obj \<Rightarrow> string \<Rightarrow> bool" where
  "selector_matches blockName attributes selector =
     (selector = blockName \<or>
      (startsWith selector blockName \<and>
       (case map_of selectorMapping selector of
          None \<Rightarrow> False
        | Some predicate \<Rightarrow> predicate attributes)))"

section \<open>The same computation on a heap\<close>

text \<open>
  lodash's \<open>merge\<close> writes into its first argument. To see what the computation in
  \<open>withBlockControls\<close> writes, objects live on a heap here: the heap is the list of all
  objects, an address is an index into it, a new object is put at the end, and a
  property holds a primitive value or the address of an object. The functions below
  follow the code like the ones above, with every write made to the heap. Recursion
  into nested objects takes fuel, and \<open>None\<close> is running out of it; the stack that lodash
  keeps to cut cycles is left out, as style data has none.
\<close>

datatype hval =
    HUndefined
  | HNull
  | HBool bool
  | HNum rat
  | HStr string
  | HRef nat

type_synonym hobj = "(string \<times> hval) list"
type_synonym heap = "hobj list"

text \<open>\<open>object[key]\<close> for an object of the heap.\<close>

definition h_member :: "hobj \<Rightarrow> string \<Rightarrow> hval" where
  "h_member object key = (case map_of object key of Some v \<Rightarrow> v | None \<Rightarrow> HUndefined)"

fun h_truthy :: "hval \<Rightarrow> bool" where
  "h_truthy HUndefined = False"
| "h_truthy HNull = False"
| "h_truthy (HBool b) = b"
| "h_truthy (HNum n) = (n \<noteq> 0)"
| "h_truthy (HStr s) = (s \<noteq> [])"
| "h_truthy (HRef a) = True"

text \<open>\<open>assignMergeValue\<close>: \<open>eq\<close> compares primitives by value and objects by
  address.\<close>

definition h_assignMergeValue :: "heap \<Rightarrow> nat \<Rightarrow> string \<Rightarrow> hval \<Rightarrow> heap" where
  "h_assignMergeValue h object key v =
     (if (v \<noteq> HUndefined \<and> h_member (h ! object) key \<noteq> v)
         \<or> (v = HUndefined \<and> key \<notin> fst ` set (h ! object))
      then h[object := assign (h ! object) key v] else h)"

text \<open>
  \<open>baseMerge\<close> over the property names of the source, taken when the loop starts; the
  value of a property is read when its turn comes. For a source value that is an object,
  \<open>baseMergeDeep\<close> merges into the destination's own value when that is an object, and
  into a new empty object otherwise, and then stores the object merged into. A nested
  \<open>baseMerge\<close> returns at once when destination and source are the same object.
\<close>

fun h_baseMerge :: "nat \<Rightarrow> heap \<Rightarrow> nat \<Rightarrow> nat \<Rightarrow> string list \<Rightarrow> heap option" where
  "h_baseMerge fuel h object source [] = Some h"
| "h_baseMerge fuel h object source (key # props) =
     (case h_member (h ! source) key of
        HRef s \<Rightarrow>
          (case fuel of
             0 \<Rightarrow> None
           | Suc fuel' \<Rightarrow>
               (let objValue = h_member (h ! object) key;
                    h0 = (case objValue of HRef d \<Rightarrow> h | _ \<Rightarrow> h @ [[]]);
                    newValue = (case objValue of HRef d \<Rightarrow> d | _ \<Rightarrow> length h)
                in case (if newValue = s then Some h0
                         else h_baseMerge fuel' h0 newValue s (map fst (h0 ! s))) of
                     None \<Rightarrow> None
                   | Some h1 \<Rightarrow>
                       h_baseMerge fuel (h_assignMergeValue h1 object key (HRef newValue))
                         object source props))
      | srcValue \<Rightarrow>
          h_baseMerge fuel (h_assignMergeValue h object key srcValue) object source props)"


text \<open>The characters of a string source under their indices.\<close>

definition h_string_entries :: "string \<Rightarrow> hobj" where
  "h_string_entries s = map (\<lambda>i. (string_of_nat i, HStr [s ! i])) [0..<length s]"

text \<open>One source of \<open>merge\<close>, and all of them from left to right, skipping the falsy
  ones.\<close>

fun h_merge_source :: "nat \<Rightarrow> heap \<Rightarrow> nat \<Rightarrow> hval \<Rightarrow> heap option" where
  "h_merge_source fuel h object (HRef s) =
     (if object = s then Some h else h_baseMerge fuel h object s (map fst (h ! s)))"
| "h_merge_source fuel h object (HStr s) =
     Some (foldl (\<lambda>h (key, c). h_assignMergeValue h object key c) h (h_string_entries s))"
| "h_merge_source fuel h object _ = Some h"

fun h_merge :: "nat \<Rightarrow> heap \<Rightarrow> nat \<Rightarrow> hval list \<Rightarrow> heap option" where
  "h_merge fuel h object [] = Some h"
| "h_merge fuel h object (source # sources) =
     (if h_truthy source then
        (case h_merge_source fuel h object source of
           None \<Rightarrow> None
         | Some h' \<Rightarrow> h_merge fuel h' object sources)
      else h_merge fuel h object sources)"

text \<open>\<open>selectorMapping\<close>, reading the attributes object of the heap.\<close>

definition h_selectorMapping :: "(string \<times> (hobj \<Rightarrow> bool)) list" where
  "h_selectorMapping =
     [(''core/heading/h1'', \<lambda>attributes. h_member attributes ''level'' = HNum 1),
      (''core/heading/h2'', \<lambda>attributes. h_member attributes ''level'' = HNum 2),
      (''core/heading/h3'', \<lambda>attributes. h_member attributes ''level'' = HNum 3),
      (''core/heading/h4'', \<lambda>attributes. h_member attributes ''level'' = HNum 4),
      (''core/heading/h5'', \<lambda>attributes. h_member attributes ''level'' = HNum 5),
      (''core/heading/h6'', \<lambda>attributes. h_member attributes ''level'' = HNum 6)]"

text \<open>The callback of the \<open>reduce\<close> and the loop; an exception ends the loop and is
  returned with the heap as it is then.\<close>

fun h_merge_styles :: "nat \<Rightarrow> heap \<Rightarrow> nat \<Rightarrow> hval \<Rightarrow> (heap \<times> error option) option" where
  "h_merge_styles fuel h accumulator HUndefined = Some (h, Some TypeError)"
| "h_merge_styles fuel h accumulator HNull = Some (h, Some TypeError)"
| "h_merge_styles fuel h accumulator (HRef v) =
     (case h_merge fuel h accumulator [h_member (h ! v) ''styles''] of
        None \<Rightarrow> None
      | Some h' \<Rightarrow> Some (h', None))"
| "h_merge_styles fuel h accumulator _ = Some (h, None)"

definition h_selector_callback ::
  "nat \<Rightarrow> heap \<Rightarrow> string \<Rightarrow> nat \<Rightarrow> nat \<Rightarrow> hval \<Rightarrow> string \<Rightarrow> (heap \<times> error option) option" where
  "h_selector_callback fuel h blockName attributes accumulator v selector =
     (if selector = blockName then h_merge_styles fuel h accumulator v
      else if startsWith selector blockName then
        (case map_of h_selectorMapping selector of
           None \<Rightarrow> Some (h, Some TypeError)
         | Some predicate \<Rightarrow>
             if predicate (h ! attributes) then h_merge_styles fuel h accumulator v
             else Some (h, None))
      else Some (h, None))"

fun h_reduce ::
  "nat \<Rightarrow> heap \<Rightarrow> string \<Rightarrow> nat \<Rightarrow> nat \<Rightarrow> nat \<Rightarrow> string list \<Rightarrow> (heap \<times> error option) option" where
  "h_reduce fuel h blockName attributes accumulator collection [] = Some (h, None)"
| "h_reduce fuel h blockName attributes accumulator collection (key # props) =
     (case h_selector_callback fuel h blockName attributes accumulator
             (h_member (h ! collection) key) key of
        None \<Rightarrow> None
      | Some (h', Some e) \<Rightarrow> Some (h', Some e)
      | Some (h', None) \<Rightarrow> h_reduce fuel h' blockName attributes accumulator collection props)"

text \<open>\<open>globalBlockSpecificStyles\<close>: the accumulator \<open>{}\<close> is a new object.\<close>

fun h_globalBlockSpecificStyles ::
  "nat \<Rightarrow> heap \<Rightarrow> string \<Rightarrow> nat \<Rightarrow> hval \<Rightarrow> (heap \<times> (error + nat)) option" where
  "h_globalBlockSpecificStyles fuel h blockName attributes (HRef g) =
     (case h_reduce fuel (h @ [[]]) blockName attributes (length h) g (map fst (h ! g)) of
        None \<Rightarrow> None
      | Some (h', Some e) \<Rightarrow> Some (h', Inl e)
      | Some (h', None) \<Rightarrow> Some (h', Inr (length h)))"
| "h_globalBlockSpecificStyles fuel h blockName attributes (HStr s) =
     (if s = [] then Some (h @ [[]], Inr (length h)) else Some (h @ [[]], Inl TypeError))"
| "h_globalBlockSpecificStyles fuel h blockName attributes _ = Some (h @ [[]], Inr (length h))"

text \<open>\<open>value || {}\<close> makes a new object when the value is falsy.\<close>

definition h_or_empty :: "heap \<Rightarrow> hval \<Rightarrow> heap \<times> hval" where
  "h_or_empty h v = (if h_truthy v then (h, v) else (h @ [[]], HRef (length h)))"

fun h_global_styles :: "heap \<Rightarrow> hval \<Rightarrow> hval" where
  "h_global_styles h (HRef g) =
     (case h_member (h ! g) ''global'' of
        HRef global \<Rightarrow> h_member (h ! global) ''styles''
      | _ \<Rightarrow> HUndefined)"
| "h_global_styles h _ = HUndefined"

text \<open>\<open>globalStylesBlock\<close>: the arguments of the final \<open>merge\<close> are evaluated from
  left to right, the target \<open>{}\<close> first; the result is the address of the target.\<close>

definition h_globalStylesBlock ::
  "nat \<Rightarrow> heap \<Rightarrow> string \<Rightarrow> nat \<Rightarrow> hval \<Rightarrow> hval \<Rightarrow> (heap \<times> (error + nat)) option" where
  "h_globalStylesBlock fuel h blockName attributes experimentalGlobalStyles globalStylesContext =
     (case h_globalBlockSpecificStyles fuel h blockName attributes experimentalGlobalStyles of
        None \<Rightarrow> None
      | Some (h1, Inl e) \<Rightarrow> Some (h1, Inl e)
      | Some (h1, Inr blockSpecific) \<Rightarrow>
          (let result = length h1;
               h2 = h1 @ [[]];
               (h3, global) = h_or_empty h2 (h_global_styles h2 experimentalGlobalStyles);
               (h4, inherited) = h_or_empty h3 globalStylesContext;
               (h5, local) = h_or_empty h4 (h_member (h4 ! attributes) ''style'')
           in case h_merge fuel h5 result [global, inherited, HRef blockSpecific, local] of
                None \<Rightarrow> None
              | Some h6 \<Rightarrow> Some (h6, Inr result)))"

section \<open>Heap objects and the values they stand for\<close>

text \<open>The heap value of a value that is not an object.\<close>

fun hval_of :: "jsval \<Rightarrow> hval" where
  "hval_of JUndefined = HUndefined"
| "hval_of JNull = HNull"
| "hval_of (JBool b) = HBool b"
| "hval_of (JNum n) = HNum n"
| "hval_of (JStr s) = HStr s"
| "hval_of (JObj kvs) = HUndefined"

text \<open>
  \<open>srepr R h hv v\<close>: in the heap \<open>h\<close>, \<open>hv\<close> stands for the value \<open>v\<close>, and every object
  reached on the way has its address in \<open>R\<close>. Objects may be shared.
\<close>

fun srepr :: "nat set \<Rightarrow> heap \<Rightarrow> hval \<Rightarrow> jsval \<Rightarrow> bool" where
  "srepr R h hv (JObj kvs) =
     (case hv of
        HRef a \<Rightarrow> a \<in> R \<and> map fst (h ! a) = map fst kvs \<and> distinct (map fst kvs)
          \<and> list_all (\<lambda>(k, v). srepr R h (h_member (h ! a) k) v) kvs
      | _ \<Rightarrow> False)"
| "srepr R h hv v = (hv = hval_of v)"

text \<open>
  \<open>own h hv v F\<close>: \<open>hv\<close> stands for \<open>v\<close>, the objects reached are exactly those at the
  addresses \<open>F\<close>, and none of them is reached twice.
\<close>

inductive own :: "heap \<Rightarrow> hval \<Rightarrow> jsval \<Rightarrow> nat set \<Rightarrow> bool" where
  own_leaf: "(\<And>kvs. v \<noteq> JObj kvs) \<Longrightarrow> own h (hval_of v) v {}"
| own_obj:
    "d < length h \<Longrightarrow> map fst (h ! d) = map fst kvs \<Longrightarrow> distinct (map fst kvs)
     \<Longrightarrow> (\<And>k v. (k, v) \<in> set kvs \<Longrightarrow> own h (h_member (h ! d) k) v (G k))
     \<Longrightarrow> (\<And>k k'. k \<in> fst ` set kvs \<Longrightarrow> k' \<in> fst ` set kvs \<Longrightarrow> k \<noteq> k' \<Longrightarrow> G k \<inter> G k' = {})
     \<Longrightarrow> (\<And>k. k \<in> fst ` set kvs \<Longrightarrow> d \<notin> G k)
     \<Longrightarrow> own h (HRef d) (JObj kvs) (insert d (\<Union>k \<in> fst ` set kvs. G k))"

text \<open>The nesting depth of a value bounds the fuel a merge of it needs.\<close>

fun depth :: "jsval \<Rightarrow> nat" where
  "depth (JObj kvs) = Suc (foldr max (map depth (map snd kvs)) 0)"
| "depth _ = 0"

section \<open>Properties of the variable compiler\<close>

lemma startsWith_iff: "startsWith s target \<longleftrightarrow> (\<exists>r. s = target @ r)"
  unfolding startsWith_def
  by (metis append_eq_conv_conj append_take_drop_id)

lemma split_not_Nil: "split s sep \<noteq> []"
  by (induction s) (auto split: list.splits)

text \<open>Splitting on a character and joining with a string replaces every occurrence of
  the character by the string.\<close>

lemma join_split: "join (split s c) sep = concat (map (\<lambda>x. if x = c then sep else [x]) s)"
proof (induction s)
  case Nil
  show ?case by simp
next
  case (Cons x s)
  obtain w ws where ws: "split s c = w # ws"
    using split_not_Nil [of s c] by (cases "split s c") auto
  show ?case
  proof (cases "x = c")
    case True
    with Cons ws show ?thesis by simp
  next
    case False
    with Cons ws show ?thesis by (cases ws) auto
  qed
qed

text \<open>
  C2. A string that starts with \<open>var:\<close> is compiled by dropping the prefix, splitting the
  rest on \<open>|\<close>, joining the pieces with \<open>--\<close> and wrapping the result in
  \<open>var(--wp--\<dots>)\<close>; \<open>var:typography|fontSize\<close> gives \<open>var(--wp--typography--fontSize)\<close>,
  and the bare prefix \<open>var:\<close> gives \<open>var(--wp--)\<close>, unchecked.
\<close>

theorem compileStyleValue_reference:
  "(startsWith s ''var:'' \<longrightarrow>
      compileStyleValue (JStr s) =
        JStr (''var(--wp--'' @ join (split (drop 4 s) (CHR ''|'')) ''--'' @ '')''))
   \<and> compileStyleValue (JStr ''var:typography|fontSize'') = JStr ''var(--wp--typography--fontSize)''
   \<and> compileStyleValue (JStr ''var:'') = JStr ''var(--wp--)''"
  by (simp add: VARIABLE_REFERENCE_PREFIX_def VARIABLE_PATH_SEPARATOR_TOKEN_ATTRIBUTE_def
      VARIABLE_PATH_SEPARATOR_TOKEN_STYLE_def startsWith_def eval_nat_numeral)

theorem compileStyleValue_reference_witness:
  "startsWith ''var:color|primary|dark'' ''var:''
   \<and> compileStyleValue (JStr ''var:color|primary|dark'') = JStr ''var(--wp--color--primary--dark)''"
  using compileStyleValue_reference [of "''var:color|primary|dark''"]
  by (simp add: startsWith_def)

text \<open>
  C3. A string that does not start with \<open>var:\<close> is returned unchanged.
\<close>

theorem compileStyleValue_literal:
  "\<not> startsWith s ''var:'' \<Longrightarrow> compileStyleValue (JStr s) = JStr s"
  by (simp add: VARIABLE_REFERENCE_PREFIX_def)

theorem compileStyleValue_literal_witness:
  "\<not> startsWith ''#ff0000'' ''var:'' \<and> compileStyleValue (JStr ''#ff0000'') = JStr ''#ff0000''"
  using compileStyleValue_literal [of "''#ff0000''"]
  by (simp add: startsWith_def)


section \<open>Properties of the merge\<close>

lemma map_of_assign: "map_of (assign object key v) = (map_of object)(key \<mapsto> v)"
  by (induction object) auto

lemma keys_assign: "fst ` set (assign object key v) = insert key (fst ` set object)"
  by (simp add: dom_map_of_conv_image_fst [symmetric] map_of_assign)

lemma set_assign: "set (assign object key v) \<subseteq> insert (key, v) (set object)"
  by (induction object) (auto split: if_splits)

lemma distinct_assign: "distinct (map fst object) \<Longrightarrow> distinct (map fst (assign object key v))"
  by (induction object) (auto simp: keys_assign)

lemma assign_fresh: "key \<notin> fst ` set object \<Longrightarrow> assign object key v = object @ [(key, v)]"
  by (induction object) auto

lemma assign_same: "map_of object key = Some v \<Longrightarrow> assign object key v = object"
  by (induction object) (auto split: if_splits)

lemma key_in_conv: "key \<in> fst ` set object \<longleftrightarrow> map_of object key \<noteq> None"
  by (simp add: map_of_eq_None_iff)

lemma assignMergeValue_eq:
  "assignMergeValue object key v =
     (if v = JUndefined \<and> key \<in> fst ` set object then object else assign object key v)"
proof (cases "v \<noteq> JUndefined \<and> member (JObj object) key = v")
  case True
  then have "map_of object key = Some v"
    by (auto split: option.splits)
  with True show ?thesis
    by (simp add: assignMergeValue_def baseAssignValue_def assign_same)
next
  case False
  then show ?thesis
    by (auto simp: assignMergeValue_def baseAssignValue_def)
qed

lemma baseMerge_Cons:
  "baseMerge object ((key, srcValue) # source) =
     baseMerge
       (if srcValue = JUndefined \<and> key \<in> fst ` set object then object
        else assign object key
          (case srcValue of
             JObj s \<Rightarrow> JObj (baseMerge (case map_of object key of Some (JObj d) \<Rightarrow> d | _ \<Rightarrow> []) s)
           | _ \<Rightarrow> srcValue))
       source"
  by (cases srcValue) (auto simp: assignMergeValue_eq split: option.splits jsval.splits)

lemma map_of_baseMerge_other:
  "key \<notin> fst ` set source \<Longrightarrow> map_of (baseMerge object source) key = map_of object key"
proof (induction source arbitrary: object)
  case Nil
  show ?case by simp
next
  case (Cons e source)
  obtain k v where e: "e = (k, v)" by (cases e)
  from Cons.prems e have "k \<noteq> key" and "key \<notin> fst ` set source" by auto
  then show ?case
    unfolding e baseMerge_Cons by (simp add: Cons.IH map_of_assign)
qed

lemma map_of_baseMerge:
  assumes "distinct (map fst source)" and "map_of source key = Some srcValue"
  shows "map_of (baseMerge object source) key =
     (case srcValue of
        JObj s \<Rightarrow> Some (JObj (baseMerge (case map_of object key of Some (JObj d) \<Rightarrow> d | _ \<Rightarrow> []) s))
      | JUndefined \<Rightarrow> (case map_of object key of None \<Rightarrow> Some JUndefined | Some x \<Rightarrow> Some x)
      | _ \<Rightarrow> Some srcValue)"
  using assms
proof (induction source arbitrary: object)
  case Nil
  then show ?case by simp
next
  case (Cons e source)
  obtain k v where e: "e = (k, v)" by (cases e)
  show ?case
  proof (cases "k = key")
    case True
    with Cons.prems e have v: "v = srcValue" and fresh: "key \<notin> fst ` set source"
      by auto
    show ?thesis
      unfolding e baseMerge_Cons True v
      by (cases srcValue)
         (auto simp: map_of_baseMerge_other [OF fresh] map_of_assign key_in_conv
               split: option.splits)
  next
    case False
    with Cons.prems e have "distinct (map fst source)" and "map_of source key = Some srcValue"
      by auto
    note IH = Cons.IH [OF this]
    define object' where "object' =
       (if v = JUndefined \<and> k \<in> fst ` set object then object
        else assign object k
          (case v of
             JObj s \<Rightarrow> JObj (baseMerge (case map_of object k of Some (JObj d) \<Rightarrow> d | _ \<Rightarrow> []) s)
           | _ \<Rightarrow> v))"
    have same: "map_of object' key = map_of object key"
      using False by (simp add: object'_def map_of_assign)
    have "baseMerge object (e # source) = baseMerge object' source"
      unfolding e baseMerge_Cons object'_def ..
    then show ?thesis
      using IH [of object'] by (simp only: same)
  qed
qed

lemma wf_val_map_of: "wf_val (JObj kvs) \<Longrightarrow> map_of kvs key = Some x \<Longrightarrow> wf_val x"
  by (auto simp: list_all_iff dest!: map_of_SomeD)

lemma defines_leaf_Cons:
  "defines_leaf (JObj kvs) (key # path) v \<longleftrightarrow>
     (\<exists>x. map_of kvs key = Some x \<and> (if path = [] then x = v \<and> leaf v else defines_leaf x path v))"
  by (auto simp: defines_leaf_def split: option.splits)

lemma defines_leaf_object: "defines_leaf x path v \<Longrightarrow> \<exists>kvs. x = JObj kvs"
  by (cases x; cases path) (auto simp: defines_leaf_def)

lemma defines_leaf_Nil [simp]: "\<not> defines_leaf x [] v"
  by (simp add: defines_leaf_def)

lemma baseMerge_wins:
  "wf_val (JObj source) \<Longrightarrow> defines_leaf (JObj source) path v
   \<Longrightarrow> defines_leaf (JObj (baseMerge object source)) path v"
proof (induction path arbitrary: object source)
  case Nil
  then show ?case by simp
next
  case (Cons key path)
  from Cons.prems(2) obtain x where x: "map_of source key = Some x"
    and rest: "if path = [] then x = v \<and> leaf v else defines_leaf x path v"
    unfolding defines_leaf_Cons by blast
  from Cons.prems(1) have dist: "distinct (map fst source)" by simp
  show ?case
  proof (cases "path = []")
    case True
    with rest have "x = v" "leaf v" by auto
    then have "map_of (baseMerge object source) key = Some v"
      using map_of_baseMerge [OF dist x, of object] by (cases v) auto
    with True \<open>leaf v\<close> show ?thesis by (simp add: defines_leaf_Cons)
  next
    case False
    with rest have d: "defines_leaf x path v" by simp
    then obtain s where s: "x = JObj s" using defines_leaf_object by blast
    have wf: "wf_val (JObj s)" using wf_val_map_of [OF Cons.prems(1) x] s by simp
    define d' where "d' = (case map_of object key of Some (JObj d) \<Rightarrow> d | _ \<Rightarrow> [])"
    have "map_of (baseMerge object source) key = Some (JObj (baseMerge d' s))"
      using map_of_baseMerge [OF dist x, of object] s by (simp add: d'_def)
    moreover have "defines_leaf (JObj (baseMerge d' s)) path v"
      using Cons.IH [OF wf] d s by simp
    ultimately show ?thesis using False by (simp add: defines_leaf_Cons)
  qed
qed

lemma baseMerge_passes:
  "wf_val (JObj source) \<Longrightarrow> passes (JObj source) path \<Longrightarrow> defines_leaf (JObj object) path v
   \<Longrightarrow> defines_leaf (JObj (baseMerge object source)) path v"
proof (induction path arbitrary: object source)
  case Nil
  then show ?case by simp
next
  case (Cons key path)
  from Cons.prems(3) obtain y where y: "map_of object key = Some y"
    and rest: "if path = [] then y = v \<and> leaf v else defines_leaf y path v"
    unfolding defines_leaf_Cons by blast
  from Cons.prems(1) have dist: "distinct (map fst source)" by simp
  show ?case
  proof (cases "map_of source key")
    case None
    then have "map_of (baseMerge object source) key = map_of object key"
      by (simp add: map_of_baseMerge_other map_of_eq_None_iff)
    with Cons.prems(3) show ?thesis by (simp add: defines_leaf_Cons)
  next
    case (Some x)
    note m = map_of_baseMerge [OF dist Some, of object]
    show ?thesis
    proof (cases x)
      case JUndefined
      with m y have "map_of (baseMerge object source) key = map_of object key" by simp
      with Cons.prems(3) show ?thesis by (simp add: defines_leaf_Cons)
    next
      case (JObj s)
      with Cons.prems(2) Some have ne: "path \<noteq> []" and p: "passes (JObj s) path" by auto
      with rest have d: "defines_leaf y path v" by simp
      then obtain d0 where d0: "y = JObj d0" using defines_leaf_object by blast
      have wf: "wf_val (JObj s)" using wf_val_map_of [OF Cons.prems(1) Some] JObj by simp
      have "map_of (baseMerge object source) key = Some (JObj (baseMerge d0 s))"
        using m JObj y d0 by simp
      moreover have "defines_leaf (JObj (baseMerge d0 s)) path v"
        using Cons.IH [OF wf p] d d0 by simp
      ultimately show ?thesis using ne by (simp add: defines_leaf_Cons)
    qed (use Cons.prems(2) Some in auto)
  qed
qed

lemma wf_val_assign:
  "wf_val (JObj object) \<Longrightarrow> wf_val v \<Longrightarrow> wf_val (JObj (assign object key v))"
proof -
  assume wo: "wf_val (JObj object)" and wv: "wf_val v"
  from set_assign [of object key v] have "\<forall>e \<in> set (assign object key v). wf_val (snd e)"
    using wo wv by (auto simp: list_all_iff)
  with wo show ?thesis
    by (simp add: distinct_assign list_all_iff)
qed

lemma wf_val_baseMerge: "wf_val (JObj object) \<Longrightarrow> wf_val (JObj (baseMerge object source))"
proof (induction object source rule: baseMerge.induct)
  case (1 object)
  then show ?case by simp
next
  case (2 object key srcValue source)
  define d' where "d' = (case map_of object key of Some (JObj d) \<Rightarrow> d | _ \<Rightarrow> [])"
  have wd: "wf_val (JObj d')"
  proof (cases "map_of object key")
    case None
    then show ?thesis by (simp add: d'_def)
  next
    case (Some y)
    from wf_val_map_of [OF "2.prems" Some] Some show ?thesis
      by (cases y) (simp_all add: d'_def)
  qed
  define v' where "v' = (case srcValue of JObj s \<Rightarrow> JObj (baseMerge d' s) | _ \<Rightarrow> srcValue)"
  have wv: "wf_val v'"
  proof (cases srcValue)
    case (JObj s)
    with "2.IH"(1) [OF JObj] wd show ?thesis
      by (simp add: v'_def d'_def split: option.splits jsval.splits)
  qed (simp_all add: v'_def)
  define object' where "object' =
    (case srcValue of
       JObj s \<Rightarrow> assignMergeValue object key
           (JObj (baseMerge (case member (JObj object) key of JObj d \<Rightarrow> d | _ \<Rightarrow> []) s))
     | _ \<Rightarrow> assignMergeValue object key srcValue)"
  have "object' = (if srcValue = JUndefined \<and> key \<in> fst ` set object then object else assign object key v')"
    by (cases srcValue) (auto simp: object'_def v'_def d'_def assignMergeValue_eq split: option.splits jsval.splits)
  then have "wf_val (JObj object')"
    using "2.prems" wf_val_assign [OF "2.prems" wv, of key] by (simp del: wf_val.simps)
  from "2.IH"(2) [OF this [unfolded object'_def]] show ?case by simp
qed

lemma baseMerge_fresh:
  "wf_val (JObj source) \<Longrightarrow> fst ` set source \<inter> fst ` set object = {}
   \<Longrightarrow> baseMerge object source = object @ source"
proof (induction object source rule: baseMerge.induct)
  case (1 object)
  then show ?case by simp
next
  case (2 object key srcValue source)
  from "2.prems" have fresh: "key \<notin> fst ` set object" and wfv: "wf_val srcValue"
    and wfs: "wf_val (JObj source)" and knew: "key \<notin> fst ` set source"
    and disj: "fst ` set source \<inter> fst ` set object = {}"
    by auto
  from fresh have none: "map_of object key = None" by (simp add: map_of_eq_None_iff)
  define object' where "object' =
    (case srcValue of
       JObj s \<Rightarrow> assignMergeValue object key
           (JObj (baseMerge (case member (JObj object) key of JObj d \<Rightarrow> d | _ \<Rightarrow> []) s))
     | _ \<Rightarrow> assignMergeValue object key srcValue)"
  have o': "object' = object @ [(key, srcValue)]"
  proof (cases srcValue)
    case (JObj s)
    from "2.IH"(1) [OF JObj] wfv JObj none have "baseMerge [] s = s" by simp
    with JObj none fresh show ?thesis
      by (simp add: object'_def assignMergeValue_eq assign_fresh)
  qed (use fresh in \<open>simp_all add: object'_def assignMergeValue_eq assign_fresh\<close>)
  have "fst ` set source \<inter> fst ` set object' = {}"
    using disj knew by (auto simp: o')
  from "2.IH"(2) [OF wfs this [unfolded object'_def]] o' show ?case
    by (simp add: object'_def)
qed

lemma baseMerge_empty: "wf_val (JObj source) \<Longrightarrow> baseMerge [] source = source"
  using baseMerge_fresh [of source "[]"] by simp

lemma merge_Nil [simp]: "merge object [] = object"
  by (simp add: merge_def)

lemma merge_append: "merge object (xs @ ys) = merge (merge object xs) ys"
  by (simp add: merge_def)

lemma merge_single:
  "merge object [source] = (if truthy source then baseMerge object (own_entries source) else object)"
  by (simp add: merge_def)

lemma merge_Cons: "merge object (source # sources) = merge (merge object [source]) sources"
  by (simp add: merge_def)

lemma wf_val_merge: "wf_val (JObj object) \<Longrightarrow> wf_val (JObj (merge object sources))"
proof (induction sources arbitrary: object)
  case Nil
  then show ?case by simp
next
  case (Cons source sources)
  have "wf_val (JObj (merge object [source]))"
    using Cons.prems wf_val_baseMerge [OF Cons.prems] by (simp add: merge_single del: wf_val.simps)
  from Cons.IH [OF this] show ?case by (subst merge_Cons)
qed

lemma passes_object: "passes x path \<Longrightarrow> \<exists>kvs. x = JObj kvs"
  by (cases x) auto

text \<open>The last source that defines a leaf at a path decides the value there, and a
  source that passes the path keeps what was there.\<close>

lemma merge_snoc_wins:
  assumes "wf_val l" and "defines_leaf l path v"
  shows "defines_leaf (JObj (merge object (ls @ [l]))) path v"
proof -
  from assms(2) obtain kvs where l: "l = JObj kvs" using defines_leaf_object by blast
  show ?thesis
    using baseMerge_wins [of kvs path v "merge object ls"] assms
    by (simp add: merge_append merge_single l del: wf_val.simps)
qed

lemma merge_snoc_passes:
  assumes "wf_val l" and "passes l path" and "defines_leaf (JObj (merge object ls)) path v"
  shows "defines_leaf (JObj (merge object (ls @ [l]))) path v"
proof -
  from assms(2) obtain kvs where l: "l = JObj kvs" using passes_object by blast
  show ?thesis
    using baseMerge_passes [of kvs path "merge object ls" v] assms
    by (simp add: merge_append merge_single l del: wf_val.simps)
qed

lemma wf_val_merge_styles:
  "wf_val (JObj accumulator) \<Longrightarrow> merge_styles accumulator v = Inr r \<Longrightarrow> wf_val (JObj r)"
  using wf_val_merge [of accumulator "[member v ''styles'']"]
  by (cases v) (auto simp del: wf_val.simps)

lemma wf_val_selector_callback:
  "wf_val (JObj accumulator) \<Longrightarrow> selector_callback blockName attributes accumulator v selector = Inr r
   \<Longrightarrow> wf_val (JObj r)"
  unfolding selector_callback_def
  by (auto simp del: wf_val.simps split: if_splits option.splits dest: wf_val_merge_styles)

lemma wf_val_reduce:
  "wf_val (JObj accumulator)
   \<Longrightarrow> reduce collection (selector_callback blockName attributes) accumulator = Inr r
   \<Longrightarrow> wf_val (JObj r)"
proof (induction collection arbitrary: accumulator)
  case Nil
  then show ?case by simp
next
  case (Cons e collection)
  obtain key v where e: "e = (key, v)" by (cases e)
  from Cons.prems(2) obtain a where a: "selector_callback blockName attributes accumulator v key = Inr a"
    and r: "reduce collection (selector_callback blockName attributes) a = Inr r"
    by (auto simp: e split: sum.splits)
  from Cons.IH [OF wf_val_selector_callback [OF Cons.prems(1) a] r] show ?case .
qed

lemma wf_val_globalBlockSpecificStyles:
  "globalBlockSpecificStyles blockName attributes gs = Inr r \<Longrightarrow> wf_val (JObj r)"
proof (cases gs)
  case (JObj kvs)
  assume "globalBlockSpecificStyles blockName attributes gs = Inr r"
  with JObj wf_val_reduce [of "[]" kvs blockName attributes r] show ?thesis by simp
qed (auto split: if_splits)

text \<open>
  C1. Precedence of the four layers. When the block's own \<open>style\<close> attribute defines a
  leaf at a path, the merged style has that leaf there, whatever the other layers hold;
  in particular when all four layers define a leaf at the same path, the local one wins.
  Below it the styles that target the block win over the inherited styles, and these
  over the styles of the root: a layer's leaf is the result when the layers above it
  pass the path.
\<close>

theorem style_precedence:
  assumes specific: "globalBlockSpecificStyles blockName attributes gs = Inr specific"
    and layers: "style_layers gs ctx specific attributes = [global, ancestor, JObj specific, local]"
    and wf: "wf_val global" "wf_val ancestor" "wf_val local"
  shows "\<exists>result. globalStylesBlock blockName attributes gs ctx = Inr result \<and>
     (defines_leaf local path v \<longrightarrow> defines_leaf (JObj result) path v) \<and>
     (defines_leaf (JObj specific) path v \<and> passes local path
        \<longrightarrow> defines_leaf (JObj result) path v) \<and>
     (defines_leaf ancestor path v \<and> passes (JObj specific) path \<and> passes local path
        \<longrightarrow> defines_leaf (JObj result) path v) \<and>
     (defines_leaf global path v \<and> passes ancestor path \<and> passes (JObj specific) path
        \<and> passes local path \<longrightarrow> defines_leaf (JObj result) path v)"
proof -
  let ?result = "merge [] [global, ancestor, JObj specific, local]"
  have res: "globalStylesBlock blockName attributes gs ctx = Inr ?result"
    by (simp add: globalStylesBlock_def specific layers)
  have wfs: "wf_val (JObj specific)"
    using wf_val_globalBlockSpecificStyles [OF specific] .
  have 4: "defines_leaf (JObj ?result) path v" if "defines_leaf local path v"
    using merge_snoc_wins [OF wf(3) that, of "[]" "[global, ancestor, JObj specific]"] by simp
  have 3: "defines_leaf (JObj ?result) path v"
    if "defines_leaf (JObj specific) path v" and "passes local path"
    using merge_snoc_passes [OF wf(3) that(2), of "[]" "[global, ancestor, JObj specific]"]
      merge_snoc_wins [OF wfs that(1), of "[]" "[global, ancestor]"]
    by simp
  have 2: "defines_leaf (JObj ?result) path v"
    if "defines_leaf ancestor path v" and "passes (JObj specific) path" and "passes local path"
    using merge_snoc_passes [OF wf(3) that(3), of "[]" "[global, ancestor, JObj specific]"]
      merge_snoc_passes [OF wfs that(2), of "[]" "[global, ancestor]"]
      merge_snoc_wins [OF wf(2) that(1), of "[]" "[global]"]
    by simp
  have 1: "defines_leaf (JObj ?result) path v"
    if "defines_leaf global path v" and "passes ancestor path" and "passes (JObj specific) path"
      and "passes local path"
    using merge_snoc_passes [OF wf(3) that(4), of "[]" "[global, ancestor, JObj specific]"]
      merge_snoc_passes [OF wfs that(3), of "[]" "[global, ancestor]"]
      merge_snoc_passes [OF wf(2) that(2), of "[]" "[global]"]
      merge_snoc_wins [OF wf(1) that(1), of "[]" "[]"]
    by simp
  from res 1 2 3 4 show ?thesis by blast
qed



theorem style_precedence_witness:
  "globalBlockSpecificStyles ''core/paragraph''
      [(''style'', JObj [(''color'', JObj [(''text'', JStr ''purple'')])])]
      (JObj [(''global'', JObj [(''styles'',
                JObj [(''color'', JObj [(''text'', JStr ''red''), (''background'', JStr ''white'')]),
                      (''typography'', JObj [(''fontSize'', JNum 12), (''lineHeight'', JNum 2)])])]),
             (''core/paragraph'', JObj [(''styles'',
                JObj [(''color'', JObj [(''text'', JStr ''green''), (''background'', JStr ''black'')])])])])
    = Inr [(''color'', JObj [(''text'', JStr ''green''), (''background'', JStr ''black'')])]
   \<and> (\<exists>result.
        globalStylesBlock ''core/paragraph''
          [(''style'', JObj [(''color'', JObj [(''text'', JStr ''purple'')])])]
          (JObj [(''global'', JObj [(''styles'',
                    JObj [(''color'', JObj [(''text'', JStr ''red''), (''background'', JStr ''white'')]),
                          (''typography'', JObj [(''fontSize'', JNum 12), (''lineHeight'', JNum 2)])])]),
                 (''core/paragraph'', JObj [(''styles'',
                    JObj [(''color'', JObj [(''text'', JStr ''green''), (''background'', JStr ''black'')])])])])
          (JObj [(''color'', JObj [(''text'', JStr ''blue''), (''background'', JStr ''grey'')]),
                 (''typography'', JObj [(''fontSize'', JNum 14)])])
        = Inr result
      \<and> defines_leaf (JObj result) [''color'', ''text''] (JStr ''purple'')
      \<and> defines_leaf (JObj result) [''color'', ''background''] (JStr ''black'')
      \<and> defines_leaf (JObj result) [''typography'', ''fontSize''] (JNum 14)
      \<and> defines_leaf (JObj result) [''typography'', ''lineHeight''] (JNum 2))"
proof -
  let ?attributes = "[(''style'', JObj [(''color'', JObj [(''text'', JStr ''purple'')])])]"
  let ?global = "JObj [(''color'', JObj [(''text'', JStr ''red''), (''background'', JStr ''white'')]),
                      (''typography'', JObj [(''fontSize'', JNum 12), (''lineHeight'', JNum 2)])]"
  let ?specific = "[(''color'', JObj [(''text'', JStr ''green''), (''background'', JStr ''black'')])]"
  let ?gs = "JObj [(''global'', JObj [(''styles'', ?global)]),
                   (''core/paragraph'', JObj [(''styles'', JObj ?specific)])]"
  let ?ctx = "JObj [(''color'', JObj [(''text'', JStr ''blue''), (''background'', JStr ''grey'')]),
                 (''typography'', JObj [(''fontSize'', JNum 14)])]"
  let ?local = "JObj [(''color'', JObj [(''text'', JStr ''purple'')])]"
  have specific: "globalBlockSpecificStyles ''core/paragraph'' ?attributes ?gs = Inr ?specific"
    by (simp add: selector_callback_def startsWith_def merge_def assignMergeValue_def
        baseAssignValue_def)
  have layers: "style_layers ?gs ?ctx ?specific ?attributes = [?global, ?ctx, JObj ?specific, ?local]"
    by (simp add: style_layers_def or_empty_def global_styles_def)
  note t = style_precedence [OF specific layers]
  have wf: "wf_val ?global" "wf_val ?ctx" "wf_val ?local"
    by simp_all
  from t [OF wf, of "[''color'', ''text'']" "JStr ''purple''"]
    t [OF wf, of "[''color'', ''background'']" "JStr ''black''"]
    t [OF wf, of "[''typography'', ''fontSize'']" "JNum 14"]
    t [OF wf, of "[''typography'', ''lineHeight'']" "JNum 2"]
  have "\<exists>result.
        globalStylesBlock ''core/paragraph'' ?attributes ?gs ?ctx = Inr result
      \<and> defines_leaf (JObj result) [''color'', ''text''] (JStr ''purple'')
      \<and> defines_leaf (JObj result) [''color'', ''background''] (JStr ''black'')
      \<and> defines_leaf (JObj result) [''typography'', ''fontSize''] (JNum 14)
      \<and> defines_leaf (JObj result) [''typography'', ''lineHeight''] (JNum 2)"
    by (auto simp: defines_leaf_def)
  with specific show ?thesis by blast
qed

lemma merge_defines:
  assumes "i < length layers"
    and "wf_val (layers ! i)" and "defines_leaf (layers ! i) path v"
    and "\<And>m. i < m \<Longrightarrow> m < length layers \<Longrightarrow> wf_val (layers ! m) \<and> passes (layers ! m) path"
  shows "defines_leaf (JObj (merge object layers)) path v"
  using assms
proof (induction layers rule: rev_induct)
  case Nil
  then show ?case by simp
next
  case (snoc l ls)
  show ?case
  proof (cases "i = length ls")
    case True
    with snoc.prems(2,3) have "wf_val l" and "defines_leaf l path v" by simp_all
    then show ?thesis by (rule merge_snoc_wins)
  next
    case False
    with snoc.prems(1) have i: "i < length ls" by simp
    from snoc.prems(4) [of "length ls"] i have l: "wf_val l" "passes l path"
      by simp_all
    have "defines_leaf (JObj (merge object ls)) path v"
    proof (rule snoc.IH [OF i])
      show "wf_val (ls ! i)" "defines_leaf (ls ! i) path v"
        using snoc.prems(2,3) i by (simp_all add: nth_append)
      show "wf_val (ls ! m) \<and> passes (ls ! m) path" if "i < m" "m < length ls" for m
        using snoc.prems(4) [of m] that by (simp add: nth_append)
    qed
    with l show ?thesis by (rule merge_snoc_passes)
  qed
qed

text \<open>The loop over the selectors, as one merge of the styles of the matching entries.\<close>

lemma merge_styles_Inr:
  "v \<noteq> JUndefined \<Longrightarrow> v \<noteq> JNull \<Longrightarrow> merge_styles accumulator v = Inr (merge accumulator [member v ''styles''])"
  by (cases v) simp_all

lemma selector_callback_cases:
  "selector_callback blockName attributes accumulator v selector =
     (if selector \<noteq> blockName \<and> startsWith selector blockName
         \<and> map_of selectorMapping selector = None then Inl TypeError
      else if selector_matches blockName attributes selector then
        (if v = JUndefined \<or> v = JNull then Inl TypeError
         else Inr (merge accumulator [member v ''styles'']))
      else Inr accumulator)"
  by (cases "v = JUndefined \<or> v = JNull")
     (auto simp: selector_callback_def selector_matches_def merge_styles_Inr
           split: option.splits)

lemma reduce_selector_callback:
  "reduce collection (selector_callback blockName attributes) accumulator =
     (if list_all (\<lambda>(selector, v).
           (selector \<noteq> blockName \<and> startsWith selector blockName
              \<longrightarrow> map_of selectorMapping selector \<noteq> None)
           \<and> (selector_matches blockName attributes selector \<longrightarrow> v \<noteq> JUndefined \<and> v \<noteq> JNull))
         collection
      then Inr (merge accumulator
                 (map (\<lambda>(selector, v). member v ''styles'')
                    (filter (\<lambda>(selector, v). selector_matches blockName attributes selector)
                       collection)))
      else Inl TypeError)"
proof (induction collection arbitrary: accumulator)
  case Nil
  show ?case by simp
next
  case (Cons e collection)
  obtain selector v where e: "e = (selector, v)" by (cases e)
  note cb = selector_callback_cases [of blockName attributes accumulator v selector]
  consider (raise) "selector \<noteq> blockName" "startsWith selector blockName"
      "map_of selectorMapping selector = None"
    | (null) "\<not> (selector \<noteq> blockName \<and> startsWith selector blockName
         \<and> map_of selectorMapping selector = None)"
      "selector_matches blockName attributes selector" "v = JUndefined \<or> v = JNull"
    | (match) "\<not> (selector \<noteq> blockName \<and> startsWith selector blockName
         \<and> map_of selectorMapping selector = None)"
      "selector_matches blockName attributes selector" "v \<noteq> JUndefined" "v \<noteq> JNull"
    | (skip) "\<not> (selector \<noteq> blockName \<and> startsWith selector blockName
         \<and> map_of selectorMapping selector = None)"
      "\<not> selector_matches blockName attributes selector"
    by (cases "selector_matches blockName attributes selector";
        cases "v = JUndefined \<or> v = JNull") auto
  then show ?case
  proof cases
    case raise
    with cb show ?thesis by (simp add: e)
  next
    case null
    with cb have "selector_callback blockName attributes accumulator v selector = Inl TypeError"
      by auto
    with null show ?thesis by (auto simp: e)
  next
    case match
    with cb have "selector_callback blockName attributes accumulator v selector
        = Inr (merge accumulator [member v ''styles''])"
      by auto
    then have "reduce (e # collection) (selector_callback blockName attributes) accumulator
        = reduce collection (selector_callback blockName attributes)
            (merge accumulator [member v ''styles''])"
      by (simp add: e)
    also note Cons.IH
    finally show ?thesis using match by (simp add: e merge_def)
  next
    case skip
    with cb have "selector_callback blockName attributes accumulator v selector = Inr accumulator"
      by auto
    with skip show ?thesis by (auto simp: e Cons.IH)
  qed
qed

lemma wf_val_member: "wf_val v \<Longrightarrow> wf_val (member v key)"
proof (cases v)
  case (JObj kvs)
  assume "wf_val v"
  with JObj show ?thesis
    using wf_val_map_of [of kvs key] by (auto split: option.splits)
qed simp_all

lemma wf_val_or_empty: "wf_val v \<Longrightarrow> wf_val (or_empty v)"
  by (simp add: or_empty_def)

lemma wf_val_global_styles: "wf_val gs \<Longrightarrow> wf_val (global_styles gs)"
  using wf_val_member [of gs "''global''"] wf_val_member [of "member gs ''global''" "''styles''"]
  by (auto simp: global_styles_def Let_def)

lemma value_at_Cons_Some:
  "value_at layer (key # path) = Some v \<longleftrightarrow>
     (\<exists>kvs x. layer = JObj kvs \<and> map_of kvs key = Some x \<and> value_at x path = Some v)"
  by (cases layer) (auto split: option.splits)

lemma defines_leaf_value_at:
  "defines_leaf layer path v \<longleftrightarrow> path \<noteq> [] \<and> value_at layer path = Some v \<and> leaf v"
proof (induction path arbitrary: layer)
  case Nil
  show ?case by simp
next
  case (Cons key path)
  show ?case
  proof (cases layer)
    case (JObj kvs)
    show ?thesis
    proof (cases "map_of kvs key")
      case None
      with JObj show ?thesis by (simp add: defines_leaf_def)
    next
      case (Some x)
      show ?thesis
      proof (cases path)
        case Nil
        with JObj Some show ?thesis by (auto simp: defines_leaf_def)
      next
        case (Cons key' path')
        have "defines_leaf layer (key # path) v \<longleftrightarrow> defines_leaf x path v"
          using JObj Some Cons by (cases x) (auto simp: defines_leaf_def)
        with Cons.IH [of x] JObj Some Cons show ?thesis by simp
      qed
    qed
  qed (simp_all add: defines_leaf_def)
qed

lemma passes_missing_key:
  "value_at layer pre = Some (JObj ys) \<Longrightarrow> a \<notin> fst ` set ys \<Longrightarrow> passes layer (pre @ a # ra)"
proof (induction pre arbitrary: layer)
  case Nil
  then have "map_of ys a = None" by (simp add: map_of_eq_None_iff)
  with Nil show ?case by simp
next
  case (Cons key pre)
  from Cons.prems(1) obtain kvs x where layer: "layer = JObj kvs" and x: "map_of kvs key = Some x"
    and at: "value_at x pre = Some (JObj ys)"
    unfolding value_at_Cons_Some by blast
  from at obtain s where s: "x = JObj s"
    by (cases pre; cases x) auto
  from Cons.IH [OF at Cons.prems(2)] show ?case
    by (simp add: layer x s)
qed

lemma all_less_4: "(\<forall>m<4. P m) \<longleftrightarrow> P 0 \<and> P 1 \<and> P 2 \<and> P (3::nat)"
proof
  assume "\<forall>m<4. P m"
  then show "P 0 \<and> P 1 \<and> P 2 \<and> P 3" by simp
next
  assume a: "P 0 \<and> P 1 \<and> P 2 \<and> P 3"
  show "\<forall>m<4. P m"
  proof (intro allI impI)
    fix m :: nat assume "m < 4"
    then consider "m = 0" | "m = 1" | "m = 2" | "m = 3" by linarith
    then show "P m" using a by cases simp_all
  qed
qed

text \<open>
  C5. No leaf is dropped. The four layers are the root styles of the setting, the
  inherited styles, the merge of the styles of the matching selectors, and the block's
  own \<open>style\<close> attribute. When a layer holds a leaf under a key \<open>a\<close> below a chain of
  parent keys, and a layer above it holds a leaf under another key \<open>b\<close> below the same
  parents, in an object that has no key \<open>a\<close>, the merged style has both leaves with
  their values, at any depth and for any two of the four layers, provided the
  remaining layers above set nothing on the two paths.
\<close>

theorem disjoint_leaves_kept:
  assumes wf: "wf_val (JObj selectorMap)" "wf_val ctx" "wf_val (JObj attributes)"
    and runs: "list_all (\<lambda>(selector, v).
           (selector \<noteq> blockName \<and> startsWith selector blockName
              \<longrightarrow> map_of selectorMapping selector \<noteq> None)
           \<and> (selector_matches blockName attributes selector \<longrightarrow> v \<noteq> JUndefined \<and> v \<noteq> JNull))
         selectorMap"
    and layers: "layers =
       [or_empty (global_styles (JObj selectorMap)),
        or_empty ctx,
        JObj (merge []
               (map (\<lambda>(selector, v). member v ''styles'')
                  (filter (\<lambda>(selector, v). selector_matches blockName attributes selector)
                     selectorMap))),
        or_empty (member (JObj attributes) ''style'')]"
    and ij: "i < j" "j < 4"
    and lower: "value_at (layers ! i) (pre @ a # ra) = Some v" "leaf v"
    and upper: "value_at (layers ! j) (pre @ b # rb) = Some w" "leaf w"
    and disjoint: "value_at (layers ! j) pre = Some (JObj ys)" "a \<notin> fst ` set ys"
    and others_a: "\<forall>m<4. i < m \<and> m \<noteq> j \<longrightarrow> passes (layers ! m) (pre @ a # ra)"
    and others_b: "\<forall>m<4. j < m \<longrightarrow> passes (layers ! m) (pre @ b # rb)"
  shows "\<exists>result. globalStylesBlock blockName attributes (JObj selectorMap) ctx = Inr result \<and>
     value_at (JObj result) (pre @ a # ra) = Some v \<and>
     value_at (JObj result) (pre @ b # rb) = Some w"
proof -
  have len: "length layers = 4"
    by (simp add: layers)
  have specific: "globalBlockSpecificStyles blockName attributes (JObj selectorMap) =
      Inr (merge []
               (map (\<lambda>(selector, v). member v ''styles'')
                  (filter (\<lambda>(selector, v). selector_matches blockName attributes selector)
                     selectorMap)))"
    using runs by (simp add: reduce_selector_callback)
  have res: "globalStylesBlock blockName attributes (JObj selectorMap) ctx = Inr (merge [] layers)"
    by (simp only: globalStylesBlock_def specific sum.case style_layers_def layers)
  have wfl: "wf_val (layers ! m)" if "m < 4" for m
  proof -
    have "wf_val (or_empty (global_styles (JObj selectorMap)))"
      using wf(1) by (intro wf_val_or_empty wf_val_global_styles)
    moreover have "wf_val (or_empty ctx)"
      using wf(2) by (rule wf_val_or_empty)
    moreover have "wf_val (JObj (merge []
               (map (\<lambda>(selector, v). member v ''styles'')
                  (filter (\<lambda>(selector, v). selector_matches blockName attributes selector)
                     selectorMap))))"
      by (rule wf_val_merge) simp
    moreover have "wf_val (or_empty (member (JObj attributes) ''style''))"
      using wf(3) by (intro wf_val_or_empty wf_val_member)
    ultimately have "\<forall>m<4. wf_val (layers ! m)"
      unfolding all_less_4 layers by simp
    with that show ?thesis by simp
  qed
  have "defines_leaf (JObj (merge [] layers)) (pre @ a # ra) v"
  proof (rule merge_defines)
    show "i < length layers" using ij len by simp
    show "wf_val (layers ! i)" using wfl ij by simp
    show "defines_leaf (layers ! i) (pre @ a # ra) v"
      using lower by (simp add: defines_leaf_value_at)
    show "wf_val (layers ! m) \<and> passes (layers ! m) (pre @ a # ra)"
      if "i < m" "m < length layers" for m
    proof (cases "m = j")
      case True
      with passes_missing_key [OF disjoint] wfl that len show ?thesis by simp
    next
      case False
      with others_a wfl that len show ?thesis by simp
    qed
  qed
  moreover have "defines_leaf (JObj (merge [] layers)) (pre @ b # rb) w"
  proof (rule merge_defines)
    show "j < length layers" using ij len by simp
    show "wf_val (layers ! j)" using wfl ij by simp
    show "defines_leaf (layers ! j) (pre @ b # rb) w"
      using upper by (simp add: defines_leaf_value_at)
    show "wf_val (layers ! m) \<and> passes (layers ! m) (pre @ b # rb)"
      if "j < m" "m < length layers" for m
      using others_b wfl that len by simp
  qed
  ultimately show ?thesis
    using res by (simp add: defines_leaf_value_at)
qed

theorem disjoint_leaves_kept_witness:
  "globalStylesBlock ''core/heading''
     [(''level'', JNum 2),
      (''style'', JObj [(''color'', JObj [(''background'', JStr ''white'')]),
                        (''typography'', JObj [(''font'', JObj [(''size'', JNum 12)])])])]
     (JObj [(''global'', JObj [(''styles'',
               JObj [(''color'', JObj [(''text'', JStr ''red'')]),
                     (''typography'', JObj [(''font'', JObj [(''family'', JStr ''serif'')])])])]),
            (''core/heading'', JObj [(''styles'',
               JObj [(''color'', JObj [(''gradient'', JStr ''dusk'')])])]),
            (''core/heading/h2'', JObj [(''styles'',
               JObj [(''typography'', JObj [(''font'', JObj [(''weight'', JNum 700)])])])]),
            (''core/heading/h3'', JObj [(''styles'',
               JObj [(''color'', JObj [(''text'', JStr ''green'')])])])])
     (JObj [(''color'', JObj [(''link'', JStr ''blue'')])])
   = Inr [(''color'', JObj [(''text'', JStr ''red''), (''link'', JStr ''blue''),
                            (''gradient'', JStr ''dusk''), (''background'', JStr ''white'')]),
          (''typography'', JObj [(''font'', JObj [(''family'', JStr ''serif''),
                            (''weight'', JNum 700), (''size'', JNum 12)])])]
   \<and> (\<exists>result.
        globalStylesBlock ''core/heading''
          [(''level'', JNum 2),
           (''style'', JObj [(''color'', JObj [(''background'', JStr ''white'')]),
                             (''typography'', JObj [(''font'', JObj [(''size'', JNum 12)])])])]
          (JObj [(''global'', JObj [(''styles'',
                    JObj [(''color'', JObj [(''text'', JStr ''red'')]),
                          (''typography'', JObj [(''font'', JObj [(''family'', JStr ''serif'')])])])]),
                 (''core/heading'', JObj [(''styles'',
                    JObj [(''color'', JObj [(''gradient'', JStr ''dusk'')])])]),
                 (''core/heading/h2'', JObj [(''styles'',
                    JObj [(''typography'', JObj [(''font'', JObj [(''weight'', JNum 700)])])])]),
                 (''core/heading/h3'', JObj [(''styles'',
                    JObj [(''color'', JObj [(''text'', JStr ''green'')])])])])
          (JObj [(''color'', JObj [(''link'', JStr ''blue'')])])
        = Inr result
      \<and> value_at (JObj result) [''color'', ''text''] = Some (JStr ''red'')
      \<and> value_at (JObj result) [''color'', ''link''] = Some (JStr ''blue'')
      \<and> value_at (JObj result) [''color'', ''gradient''] = Some (JStr ''dusk'')
      \<and> value_at (JObj result) [''color'', ''background''] = Some (JStr ''white'')
      \<and> value_at (JObj result) [''typography'', ''font'', ''family''] = Some (JStr ''serif'')
      \<and> value_at (JObj result) [''typography'', ''font'', ''weight''] = Some (JNum 700)
      \<and> value_at (JObj result) [''typography'', ''font'', ''size''] = Some (JNum 12))
   \<and> (\<exists>result.
        globalStylesBlock ''core/paragraph''
          [(''style'', JObj [(''color'', JObj [(''background'', JStr ''white'')])])]
          (JObj [(''global'', JObj [(''styles'', JObj [(''color'', JObj [(''text'', JStr ''red'')])])])])
          (JObj [])
        = Inr result
      \<and> result = [(''color'', JObj [(''text'', JStr ''red''), (''background'', JStr ''white'')])]
      \<and> value_at (JObj result) [''color'', ''text''] = Some (JStr ''red'')
      \<and> value_at (JObj result) [''color'', ''background''] = Some (JStr ''white''))"
proof -
  define attrs where "attrs =
     [(''level'', JNum 2),
      (''style'', JObj [(''color'', JObj [(''background'', JStr ''white'')]),
                        (''typography'', JObj [(''font'', JObj [(''size'', JNum 12)])])])]"
  define sm where "sm =
     [(''global'', JObj [(''styles'',
               JObj [(''color'', JObj [(''text'', JStr ''red'')]),
                     (''typography'', JObj [(''font'', JObj [(''family'', JStr ''serif'')])])])]),
            (''core/heading'', JObj [(''styles'',
               JObj [(''color'', JObj [(''gradient'', JStr ''dusk'')])])]),
            (''core/heading/h2'', JObj [(''styles'',
               JObj [(''typography'', JObj [(''font'', JObj [(''weight'', JNum 700)])])])]),
            (''core/heading/h3'', JObj [(''styles'',
               JObj [(''color'', JObj [(''text'', JStr ''green'')])])])]"
  define ctx where "ctx = JObj [(''color'', JObj [(''link'', JStr ''blue'')])]"
  define layers where "layers =
     [JObj [(''color'', JObj [(''text'', JStr ''red'')]),
            (''typography'', JObj [(''font'', JObj [(''family'', JStr ''serif'')])])],
      JObj [(''color'', JObj [(''link'', JStr ''blue'')])],
      JObj [(''color'', JObj [(''gradient'', JStr ''dusk'')]),
            (''typography'', JObj [(''font'', JObj [(''weight'', JNum 700)])])],
      JObj [(''color'', JObj [(''background'', JStr ''white'')]),
            (''typography'', JObj [(''font'', JObj [(''size'', JNum 12)])])]]"
  define run where "run = globalStylesBlock ''core/heading'' attrs (JObj sm) ctx"
  have sel: "map_of selectorMapping ''core/heading/h2''
      = Some (\<lambda>attributes. member (JObj attributes) ''level'' = JNum 2)"
    "map_of selectorMapping ''core/heading/h3''
      = Some (\<lambda>attributes. member (JObj attributes) ''level'' = JNum 3)"
    by (simp_all add: selectorMapping_def)
  have matches: "filter (\<lambda>(selector, v). selector_matches ''core/heading'' attrs selector) sm
      = [(''core/heading'', JObj [(''styles'',
               JObj [(''color'', JObj [(''gradient'', JStr ''dusk'')])])]),
         (''core/heading/h2'', JObj [(''styles'',
               JObj [(''typography'', JObj [(''font'', JObj [(''weight'', JNum 700)])])])])]"
    by (simp add: sm_def attrs_def selector_matches_def startsWith_def sel)
  have layers: "layers =
       [or_empty (global_styles (JObj sm)),
        or_empty ctx,
        JObj (merge []
               (map (\<lambda>(selector, v). member v ''styles'')
                  (filter (\<lambda>(selector, v). selector_matches ''core/heading'' attrs selector)
                     sm))),
        or_empty (member (JObj attrs) ''style'')]"
    unfolding matches
    by (simp add: layers_def sm_def attrs_def ctx_def or_empty_def global_styles_def
        merge_def assignMergeValue_def baseAssignValue_def)
  have wf: "wf_val (JObj sm)" "wf_val ctx" "wf_val (JObj attrs)"
    by (simp_all add: sm_def ctx_def attrs_def)
  have runs: "list_all (\<lambda>(selector, v).
           (selector \<noteq> ''core/heading'' \<and> startsWith selector ''core/heading''
              \<longrightarrow> map_of selectorMapping selector \<noteq> None)
           \<and> (selector_matches ''core/heading'' attrs selector \<longrightarrow> v \<noteq> JUndefined \<and> v \<noteq> JNull))
         sm"
    by (simp add: sm_def attrs_def sel startsWith_def selector_matches_def)
  note kept = disjoint_leaves_kept [OF wf runs layers, folded run_def]
  have text_link: "\<exists>result. run = Inr result
      \<and> value_at (JObj result) [''color'', ''text''] = Some (JStr ''red'')
      \<and> value_at (JObj result) [''color'', ''link''] = Some (JStr ''blue'')"
    using kept [where i = 0 and j = 1 and pre = "[''color'']" and a = "''text''" and ra = "[]"
        and v = "JStr ''red''" and b = "''link''" and rb = "[]" and w = "JStr ''blue''"
        and ys = "[(''link'', JStr ''blue'')]"]
    by (simp add: layers_def all_less_4)
  have link_gradient: "\<exists>result. run = Inr result
      \<and> value_at (JObj result) [''color'', ''link''] = Some (JStr ''blue'')
      \<and> value_at (JObj result) [''color'', ''gradient''] = Some (JStr ''dusk'')"
    using kept [where i = 1 and j = 2 and pre = "[''color'']" and a = "''link''" and ra = "[]"
        and v = "JStr ''blue''" and b = "''gradient''" and rb = "[]" and w = "JStr ''dusk''"
        and ys = "[(''gradient'', JStr ''dusk'')]"]
    by (simp add: layers_def all_less_4)
  have text_background: "\<exists>result. run = Inr result
      \<and> value_at (JObj result) [''color'', ''text''] = Some (JStr ''red'')
      \<and> value_at (JObj result) [''color'', ''background''] = Some (JStr ''white'')"
    using kept [where i = 0 and j = 3 and pre = "[''color'']" and a = "''text''" and ra = "[]"
        and v = "JStr ''red''" and b = "''background''" and rb = "[]" and w = "JStr ''white''"
        and ys = "[(''background'', JStr ''white'')]"]
    by (simp add: layers_def all_less_4)
  have family_weight: "\<exists>result. run = Inr result
      \<and> value_at (JObj result) [''typography'', ''font'', ''family''] = Some (JStr ''serif'')
      \<and> value_at (JObj result) [''typography'', ''font'', ''weight''] = Some (JNum 700)"
    using kept [where i = 0 and j = 2 and pre = "[''typography'', ''font'']" and a = "''family''"
        and ra = "[]" and v = "JStr ''serif''" and b = "''weight''" and rb = "[]"
        and w = "JNum 700" and ys = "[(''weight'', JNum 700)]"]
    by (simp add: layers_def all_less_4)
  have weight_size: "\<exists>result. run = Inr result
      \<and> value_at (JObj result) [''typography'', ''font'', ''weight''] = Some (JNum 700)
      \<and> value_at (JObj result) [''typography'', ''font'', ''size''] = Some (JNum 12)"
    using kept [where i = 2 and j = 3 and pre = "[''typography'', ''font'']" and a = "''weight''"
        and ra = "[]" and v = "JNum 700" and b = "''size''" and rb = "[]"
        and w = "JNum 12" and ys = "[(''size'', JNum 12)]"]
    by (simp add: layers_def all_less_4)
  have exact: "run = Inr [(''color'', JObj [(''text'', JStr ''red''), (''link'', JStr ''blue''),
                            (''gradient'', JStr ''dusk''), (''background'', JStr ''white'')]),
          (''typography'', JObj [(''font'', JObj [(''family'', JStr ''serif''),
                            (''weight'', JNum 700), (''size'', JNum 12)])])]"
    unfolding run_def sm_def attrs_def ctx_def
    by (simp add: globalStylesBlock_def selector_callback_def startsWith_def sel
        style_layers_def or_empty_def global_styles_def
        merge_def assignMergeValue_def baseAssignValue_def)
  from text_link link_gradient text_background family_weight weight_size
  have all: "\<exists>result. run = Inr result
      \<and> value_at (JObj result) [''color'', ''text''] = Some (JStr ''red'')
      \<and> value_at (JObj result) [''color'', ''link''] = Some (JStr ''blue'')
      \<and> value_at (JObj result) [''color'', ''gradient''] = Some (JStr ''dusk'')
      \<and> value_at (JObj result) [''color'', ''background''] = Some (JStr ''white'')
      \<and> value_at (JObj result) [''typography'', ''font'', ''family''] = Some (JStr ''serif'')
      \<and> value_at (JObj result) [''typography'', ''font'', ''weight''] = Some (JNum 700)
      \<and> value_at (JObj result) [''typography'', ''font'', ''size''] = Some (JNum 12)"
    by (elim exE conjE) (simp del: value_at.simps)
  define attrs' where "attrs' = [(''style'', JObj [(''color'', JObj [(''background'', JStr ''white'')])])]"
  define sm' where "sm' =
     [(''global'', JObj [(''styles'', JObj [(''color'', JObj [(''text'', JStr ''red'')])])])]"
  define layers' where "layers' =
     [JObj [(''color'', JObj [(''text'', JStr ''red'')])], JObj [], JObj [],
      JObj [(''color'', JObj [(''background'', JStr ''white'')])]]"
  define run' where "run' = globalStylesBlock ''core/paragraph'' attrs' (JObj sm') (JObj [])"
  have layers': "layers' =
       [or_empty (global_styles (JObj sm')),
        or_empty (JObj []),
        JObj (merge []
               (map (\<lambda>(selector, v). member v ''styles'')
                  (filter (\<lambda>(selector, v). selector_matches ''core/paragraph'' attrs' selector)
                     sm'))),
        or_empty (member (JObj attrs') ''style'')]"
    by (simp add: layers'_def sm'_def attrs'_def or_empty_def global_styles_def
        selector_matches_def startsWith_def)
  have wf': "wf_val (JObj sm')" "wf_val (JObj [])" "wf_val (JObj attrs')"
    by (simp_all add: sm'_def attrs'_def)
  have runs': "list_all (\<lambda>(selector, v).
           (selector \<noteq> ''core/paragraph'' \<and> startsWith selector ''core/paragraph''
              \<longrightarrow> map_of selectorMapping selector \<noteq> None)
           \<and> (selector_matches ''core/paragraph'' attrs' selector
              \<longrightarrow> v \<noteq> JUndefined \<and> v \<noteq> JNull))
         sm'"
    by (simp add: sm'_def attrs'_def startsWith_def selector_matches_def)
  have exact': "run' = Inr [(''color'', JObj [(''text'', JStr ''red''), (''background'', JStr ''white'')])]"
    unfolding run'_def sm'_def attrs'_def
    by (simp add: globalStylesBlock_def selector_callback_def startsWith_def
        style_layers_def or_empty_def global_styles_def
        merge_def assignMergeValue_def baseAssignValue_def)
  have "\<exists>result. run' = Inr result
      \<and> value_at (JObj result) [''color'', ''text''] = Some (JStr ''red'')
      \<and> value_at (JObj result) [''color'', ''background''] = Some (JStr ''white'')"
    using disjoint_leaves_kept [OF wf' runs' layers', folded run'_def,
        where i = 0 and j = 3 and pre = "[''color'']" and a = "''text''" and ra = "[]"
        and v = "JStr ''red''" and b = "''background''" and rb = "[]" and w = "JStr ''white''"
        and ys = "[(''background'', JStr ''white'')]"]
    by (simp add: layers'_def all_less_4)
  with exact' have example: "\<exists>result. run' = Inr result
      \<and> result = [(''color'', JObj [(''text'', JStr ''red''), (''background'', JStr ''white'')])]
      \<and> value_at (JObj result) [''color'', ''text''] = Some (JStr ''red'')
      \<and> value_at (JObj result) [''color'', ''background''] = Some (JStr ''white'')"
    by (elim exE conjE) (simp del: value_at.simps)
  from exact all example show ?thesis
    unfolding run_def sm_def attrs_def ctx_def run'_def sm'_def attrs'_def by (intro conjI)
qed

text \<open>An object without double keys is merged into the empty object unchanged.\<close>

lemma resolve_alone:
  assumes "wf_val (JObj layer)" and "member (JObj attributes) ''style'' = JObj layer"
  shows "globalStylesBlock blockName attributes (JObj []) (JObj []) = Inr layer"
proof -
  have l: "or_empty (member (JObj attributes) ''style'') = JObj layer"
    by (simp only: assms(2) or_empty_def truthy.simps if_True)
  have g: "or_empty (global_styles (JObj [])) = JObj []"
    by (simp add: or_empty_def global_styles_def)
  have c: "or_empty (JObj []) = JObj []"
    by (simp add: or_empty_def)
  have "style_layers (JObj []) (JObj []) [] attributes = [JObj [], JObj [], JObj [], JObj layer]"
    unfolding style_layers_def l g c ..
  then show ?thesis
    using baseMerge_empty [OF assms(1)]
    by (simp add: globalStylesBlock_def merge_def)
qed

text \<open>
  C6. Resolving again is the identity: a merged style, given as the block's own style
  with an empty context and empty global styles, is returned unchanged.
\<close>

theorem reresolve_unchanged:
  assumes "globalStylesBlock blockName attributes gs ctx = Inr result"
    and "member (JObj attributes') ''style'' = JObj result"
  shows "globalStylesBlock blockName' attributes' (JObj []) (JObj []) = Inr result"
proof -
  have "wf_val (JObj [])" by simp
  from wf_val_merge [OF this] assms(1) have "wf_val (JObj result)"
    by (auto simp: globalStylesBlock_def split: sum.splits simp del: wf_val.simps)
  then show ?thesis using assms(2) by (rule resolve_alone)
qed

theorem reresolve_unchanged_witness:
  "globalStylesBlock ''core/heading''
     [(''level'', JNum 2), (''style'', JObj [(''typography'', JObj [(''fontSize'', JNum 20)])])]
     (JObj [(''global'', JObj [(''styles'', JObj [(''color'', JObj [(''text'', JStr ''red'')])])]),
            (''core/heading/h2'', JObj [(''styles'', JObj [(''color'', JObj [(''link'', JStr ''var:link'')])])])])
     (JObj [(''color'', JObj [(''text'', JStr ''blue'')])])
   = Inr [(''color'', JObj [(''text'', JStr ''blue''), (''link'', JStr ''var:link'')]),
          (''typography'', JObj [(''fontSize'', JNum 20)])]
   \<and> globalStylesBlock ''core/heading''
     [(''level'', JNum 2),
      (''style'', JObj [(''color'', JObj [(''text'', JStr ''blue''), (''link'', JStr ''var:link'')]),
          (''typography'', JObj [(''fontSize'', JNum 20)])])]
     (JObj []) (JObj [])
   = Inr [(''color'', JObj [(''text'', JStr ''blue''), (''link'', JStr ''var:link'')]),
          (''typography'', JObj [(''fontSize'', JNum 20)])]"
proof -
  let ?result = "[(''color'', JObj [(''text'', JStr ''blue''), (''link'', JStr ''var:link'')]),
          (''typography'', JObj [(''fontSize'', JNum 20)])]"
  have first: "globalStylesBlock ''core/heading''
     [(''level'', JNum 2), (''style'', JObj [(''typography'', JObj [(''fontSize'', JNum 20)])])]
     (JObj [(''global'', JObj [(''styles'', JObj [(''color'', JObj [(''text'', JStr ''red'')])])]),
            (''core/heading/h2'', JObj [(''styles'', JObj [(''color'', JObj [(''link'', JStr ''var:link'')])])])])
     (JObj [(''color'', JObj [(''text'', JStr ''blue'')])])
   = Inr ?result"
    by (simp add: globalStylesBlock_def selector_callback_def startsWith_def selectorMapping_def
        style_layers_def or_empty_def global_styles_def merge_def assignMergeValue_def
        baseAssignValue_def)
  have style: "member (JObj [(''level'', JNum 2), (''style'', JObj ?result)]) ''style'' = JObj ?result"
    by simp
  from first reresolve_unchanged [OF first style, of "''core/heading''"] show ?thesis
    by simp
qed



section \<open>Inline styles, selectors and saved props\<close>

lemma distinct_inline_loop:
  "distinct (map fst out) \<Longrightarrow>
   distinct (map fst (foldl (\<lambda>output (styleKey, objectKey).
                  if has styles objectKey
                  then assign output styleKey (compileStyleValue (get styles objectKey))
                  else output) out table))"
  by (induction table arbitrary: out) (auto simp: distinct_assign)

lemma has_default: "has (if styles = JUndefined then JObj [] else styles) path = has styles path"
  by (cases path) auto

lemma get_default: "get (if styles = JUndefined then JObj [] else styles) path = get styles path"
  by (cases path; cases "tl path") auto

lemma distinct_getInlineStyles: "distinct (map fst (getInlineStyles styles))"
  unfolding getInlineStyles_def Let_def by (rule distinct_inline_loop) simp

lemma inline_loop_eq:
  assumes "distinct (map fst table)" and "fst ` set out \<inter> fst ` set table = {}"
  shows "foldl (\<lambda>output (styleKey, objectKey).
                  if has styles objectKey
                  then assign output styleKey (compileStyleValue (get styles objectKey))
                  else output) out table
     = out @ concat (map (\<lambda>(styleKey, objectKey).
                  if has styles objectKey
                  then [(styleKey, compileStyleValue (get styles objectKey))]
                  else []) table)"
  using assms
proof (induction table arbitrary: out)
  case Nil
  show ?case by simp
next
  case (Cons e table)
  obtain styleKey objectKey where e: "e = (styleKey, objectKey)" by (cases e)
  from Cons.prems e have fresh: "styleKey \<notin> fst ` set out" "styleKey \<notin> fst ` set table"
    and dist: "distinct (map fst table)" and disj: "fst ` set out \<inter> fst ` set table = {}"
    by auto
  show ?case
  proof (cases "has styles objectKey")
    case True
    let ?out = "out @ [(styleKey, compileStyleValue (get styles objectKey))]"
    have "fst ` set ?out \<inter> fst ` set table = {}"
      using fresh disj by auto
    from Cons.IH [OF dist this] True fresh show ?thesis
      by (simp add: e assign_fresh)
  next
    case False
    from Cons.IH [OF dist disj] False show ?thesis
      by (simp add: e)
  qed
qed

lemma has_pair:
  "has styles [category, name] \<longleftrightarrow>
     (\<exists>kvs inner v. styles = JObj kvs \<and> map_of kvs category = Some (JObj inner)
        \<and> map_of inner name = Some v)"
proof (cases styles)
  case (JObj kvs)
  show ?thesis
  proof (cases "map_of kvs category")
    case None
    with JObj show ?thesis by simp
  next
    case (Some x)
    with JObj show ?thesis by (cases x) (auto split: option.splits)
  qed
qed simp_all

lemma inline_entry:
  "(if has styles [category, name]
    then [(styleKey, compileStyleValue (get styles [category, name]))] else [])
   = (case styles of
        JObj kvs \<Rightarrow>
          (case map_of kvs category of
             Some (JObj inner) \<Rightarrow>
               (case map_of inner name of
                  Some v \<Rightarrow> [(styleKey, compileStyleValue v)]
                | None \<Rightarrow> [])
           | _ \<Rightarrow> [])
      | _ \<Rightarrow> [])"
proof (cases "has styles [category, name]")
  case True
  then obtain kvs inner v where "styles = JObj kvs" "map_of kvs category = Some (JObj inner)"
    "map_of inner name = Some v"
    unfolding has_pair by blast
  then show ?thesis by simp
next
  case False
  then show ?thesis
    unfolding has_pair by (auto split: jsval.splits option.splits)
qed

text \<open>
  C4. The inline styles of any style value are, in the order of the table, one entry for
  each of the six rows whose path exists in the input: the style has an object under
  the first key of the path and that object has the second key. The entry has the
  output key of the row and the compiled value found at the path. A row whose path is
  missing gives no entry, and there are no other entries. The instances show a
  reference compiled, a literal and a \<open>null\<close> kept, all six rows present, a style whose
  \<open>color\<close> is not an object, and the empty and the missing style.
\<close>

theorem getInlineStyles_table:
  "getInlineStyles styles =
     concat (map (\<lambda>(styleKey, category, name).
         case styles of
           JObj kvs \<Rightarrow>
             (case map_of kvs category of
                Some (JObj inner) \<Rightarrow>
                  (case map_of inner name of
                     Some v \<Rightarrow> [(styleKey, compileStyleValue v)]
                   | None \<Rightarrow> [])
              | _ \<Rightarrow> [])
         | _ \<Rightarrow> [])
       [(''lineHeight'', ''typography'', ''lineHeight''),
        (''fontSize'', ''typography'', ''fontSize''),
        (''background'', ''color'', ''gradient''),
        (''backgroundColor'', ''color'', ''background''),
        (''color'', ''color'', ''text''),
        (''--wp--color--link'', ''color'', ''link'')])
   \<and> getInlineStyles
        (JObj [(''typography'', JObj [(''fontSize'', JStr ''var:typography|fontSize'')]),
               (''color'', JObj [(''text'', JStr ''#ff0000''), (''link'', JNull)]),
               (''spacing'', JObj [(''padding'', JNum 4)])])
      = [(''fontSize'', JStr ''var(--wp--typography--fontSize)''),
         (''color'', JStr ''#ff0000''),
         (''--wp--color--link'', JNull)]
   \<and> getInlineStyles
        (JObj [(''color'', JObj [(''link'', JStr ''var:color|link''), (''text'', JStr ''red''),
                 (''background'', JStr ''white''), (''gradient'', JStr ''g'')]),
               (''typography'', JObj [(''lineHeight'', JNum 2), (''fontSize'', JNum 14)])])
      = [(''lineHeight'', JNum 2), (''fontSize'', JNum 14), (''background'', JStr ''g''),
         (''backgroundColor'', JStr ''white''), (''color'', JStr ''red''),
         (''--wp--color--link'', JStr ''var(--wp--color--link)'')]
   \<and> getInlineStyles (JObj [(''color'', JStr ''red'')]) = []
   \<and> getInlineStyles (JObj []) = []
   \<and> getInlineStyles JUndefined = []"
proof -
  have d: "distinct (map fst mappings)"
    by (simp add: mappings_def)
  have general: "getInlineStyles styles =
     concat (map (\<lambda>(styleKey, objectKey).
         if has styles objectKey
         then [(styleKey, compileStyleValue (get styles objectKey))] else []) mappings)"
    unfolding getInlineStyles_def Let_def has_default get_default
    using inline_loop_eq [OF d, of "[]" styles] by simp
  have first: "getInlineStyles styles =
     concat (map (\<lambda>(styleKey, category, name).
         case styles of
           JObj kvs \<Rightarrow>
             (case map_of kvs category of
                Some (JObj inner) \<Rightarrow>
                  (case map_of inner name of
                     Some v \<Rightarrow> [(styleKey, compileStyleValue v)]
                   | None \<Rightarrow> [])
              | _ \<Rightarrow> [])
         | _ \<Rightarrow> [])
       [(''lineHeight'', ''typography'', ''lineHeight''),
        (''fontSize'', ''typography'', ''fontSize''),
        (''background'', ''color'', ''gradient''),
        (''backgroundColor'', ''color'', ''background''),
        (''color'', ''color'', ''text''),
        (''--wp--color--link'', ''color'', ''link'')])"
    unfolding general mappings_def
    by (simp only: list.map prod.case inline_entry)
  have closed: "getInlineStyles
        (JObj [(''typography'', JObj [(''fontSize'', JStr ''var:typography|fontSize'')]),
               (''color'', JObj [(''text'', JStr ''#ff0000''), (''link'', JNull)]),
               (''spacing'', JObj [(''padding'', JNum 4)])])
      = [(''fontSize'', JStr ''var(--wp--typography--fontSize)''),
         (''color'', JStr ''#ff0000''),
         (''--wp--color--link'', JNull)]"
    "getInlineStyles
        (JObj [(''color'', JObj [(''link'', JStr ''var:color|link''), (''text'', JStr ''red''),
                 (''background'', JStr ''white''), (''gradient'', JStr ''g'')]),
               (''typography'', JObj [(''lineHeight'', JNum 2), (''fontSize'', JNum 14)])])
      = [(''lineHeight'', JNum 2), (''fontSize'', JNum 14), (''background'', JStr ''g''),
         (''backgroundColor'', JStr ''white''), (''color'', JStr ''red''),
         (''--wp--color--link'', JStr ''var(--wp--color--link)'')]"
    "getInlineStyles (JObj [(''color'', JStr ''red'')]) = []"
    "getInlineStyles (JObj []) = []"
    "getInlineStyles JUndefined = []"
    by (simp_all add: getInlineStyles_def mappings_def VARIABLE_REFERENCE_PREFIX_def
        VARIABLE_PATH_SEPARATOR_TOKEN_ATTRIBUTE_def VARIABLE_PATH_SEPARATOR_TOKEN_STYLE_def
        startsWith_def eval_nat_numeral)
  from first closed show ?thesis by (intro conjI)
qed

text \<open>
  C7. The block-specific layer is the merge, in the order of the setting, of the styles
  of exactly the entries whose selector is the block's name, or extends it and has a
  predicate in \<open>selectorMapping\<close> that holds of the attributes. This is the result
  whenever every extending selector has a predicate and no matching entry is \<open>null\<close> or
  \<open>undefined\<close>; otherwise the computation raises. The selector \<open>core/heading/h2\<close>
  contributes to a \<open>core/heading\<close> block of level 2 and not to one of level 3.
\<close>

theorem block_specific_styles:
  "globalBlockSpecificStyles blockName attributes (JObj selectorMap) =
     (if list_all (\<lambda>(selector, v).
           (selector \<noteq> blockName \<and> startsWith selector blockName
              \<longrightarrow> map_of selectorMapping selector \<noteq> None)
           \<and> (selector_matches blockName attributes selector \<longrightarrow> v \<noteq> JUndefined \<and> v \<noteq> JNull))
         selectorMap
      then Inr (merge []
                 (map (\<lambda>(selector, v). member v ''styles'')
                    (filter (\<lambda>(selector, v). selector_matches blockName attributes selector)
                       selectorMap)))
      else Inl TypeError)
   \<and> globalBlockSpecificStyles ''core/heading'' [(''level'', JNum 2)]
        (JObj [(''core/heading/h2'', JObj [(''styles'', JObj styles)])])
      = Inr (baseMerge [] styles)
   \<and> globalBlockSpecificStyles ''core/heading'' [(''level'', JNum 3)]
        (JObj [(''core/heading/h2'', JObj [(''styles'', JObj styles)])])
      = Inr []"
proof -
  have h2: "map_of selectorMapping ''core/heading/h2''
      = Some (\<lambda>attributes. member (JObj attributes) ''level'' = JNum 2)"
    by (simp add: selectorMapping_def)
  have "selector_matches ''core/heading'' [(''level'', JNum 2)] ''core/heading/h2''"
    and "\<not> selector_matches ''core/heading'' [(''level'', JNum 3)] ''core/heading/h2''"
    by (simp_all add: selector_matches_def h2 startsWith_def)
  then show ?thesis
    by (simp add: reduce_selector_callback h2 merge_def)
qed

theorem block_specific_styles_witness:
  "globalBlockSpecificStyles ''core/heading'' [(''level'', JNum 2)]
     (JObj [(''core/paragraph'', JNull),
            (''core/heading'', JObj [(''styles'', JObj [(''color'', JObj [(''text'', JStr ''red'')])])]),
            (''core/heading/h2'', JObj [(''styles'', JObj [(''color'', JObj [(''link'', JStr ''blue'')])])]),
            (''core/heading/h3'', JObj [(''styles'', JObj [(''color'', JObj [(''text'', JStr ''green'')])])])])
   = Inr [(''color'', JObj [(''text'', JStr ''red''), (''link'', JStr ''blue'')])]"
proof -
  have sel: "map_of selectorMapping ''core/heading/h2''
      = Some (\<lambda>attributes. member (JObj attributes) ''level'' = JNum 2)"
    "map_of selectorMapping ''core/heading/h3''
      = Some (\<lambda>attributes. member (JObj attributes) ''level'' = JNum 3)"
    by (simp_all add: selectorMapping_def)
  show ?thesis
    using block_specific_styles [of "''core/heading''" "[(''level'', JNum 2)]"
      "[(''core/paragraph'', JNull),
        (''core/heading'', JObj [(''styles'', JObj [(''color'', JObj [(''text'', JStr ''red'')])])]),
        (''core/heading/h2'', JObj [(''styles'', JObj [(''color'', JObj [(''link'', JStr ''blue'')])])]),
        (''core/heading/h3'', JObj [(''styles'', JObj [(''color'', JObj [(''text'', JStr ''green'')])])])]"]
    by (simp add: selector_matches_def startsWith_def sel merge_def assignMergeValue_def
        baseAssignValue_def)
qed

text \<open>
  C8. The computation is not total: for a \<open>core/column\<close> block and a setting with
  styles for \<open>core/columns\<close>, the selector extends the block's name, \<open>selectorMapping\<close>
  has no entry for it, and calling the missing entry raises a TypeError.
\<close>

theorem missing_predicate_raises:
  "globalStylesBlock ''core/column'' []
     (JObj [(''core/columns'', JObj [(''styles'', JObj [])])]) (JObj [])
   = Inl TypeError"
  by (simp add: globalStylesBlock_def selector_callback_def startsWith_def selectorMapping_def)


declare string_of_nat.simps [simp del]

lemma string_of_nat_not_Nil: "string_of_nat n \<noteq> []"
  by (subst string_of_nat.simps) simp

lemma digit_inj: "a < 10 \<Longrightarrow> b < 10 \<Longrightarrow> char_of (48 + a :: nat) = char_of (48 + b) \<Longrightarrow> a = b"
proof -
  assume a: "a < 10" and b: "b < 10" and eq: "char_of (48 + a) = (char_of (48 + b) :: char)"
  from eq have "of_char (char_of (48 + a) :: char) = (of_char (char_of (48 + b) :: char) :: nat)"
    by simp
  with a b show "a = b" by simp
qed

lemma string_of_nat_inj: "string_of_nat m = string_of_nat n \<Longrightarrow> m = n"
proof (induction m arbitrary: n rule: string_of_nat.induct)
  case (1 m)
  show ?case
  proof (cases "m < 10")
    case True
    then have m: "string_of_nat m = [char_of (48 + m)]"
      by (subst string_of_nat.simps) simp
    show ?thesis
    proof (cases "n < 10")
      case n: True
      then have "string_of_nat n = [char_of (48 + n)]"
        by (subst string_of_nat.simps) simp
      with m "1.prems" True n show ?thesis by (auto dest: digit_inj)
    next
      case n: False
      then have "string_of_nat n = string_of_nat (n div 10) @ [char_of (48 + n mod 10)]"
        by (subst string_of_nat.simps) simp
      with m "1.prems" string_of_nat_not_Nil [of "n div 10"] show ?thesis by simp
    qed
  next
    case False
    then have m: "string_of_nat m = string_of_nat (m div 10) @ [char_of (48 + m mod 10)]"
      by (subst string_of_nat.simps) simp
    show ?thesis
    proof (cases "n < 10")
      case n: True
      then have "string_of_nat n = [char_of (48 + n)]"
        by (subst string_of_nat.simps) simp
      with m "1.prems" string_of_nat_not_Nil [of "m div 10"] show ?thesis by simp
    next
      case n: False
      then have "string_of_nat n = string_of_nat (n div 10) @ [char_of (48 + n mod 10)]"
        by (subst string_of_nat.simps) simp
      with m "1.prems" have q: "string_of_nat (m div 10) = string_of_nat (n div 10)"
        and r: "char_of (48 + m mod 10) = (char_of (48 + n mod 10) :: char)"
        by simp_all
      from "1.IH" [OF False q] have "m div 10 = n div 10" .
      moreover from r have "m mod 10 = n mod 10"
        by (rule digit_inj [rotated 2]) simp_all
      ultimately show ?thesis by (metis div_mult_mod_eq)
    qed
  qed
qed

lemma distinct_own_entries: "wf_val v \<Longrightarrow> distinct (map fst (own_entries v))"
proof (cases v)
  case (JStr s)
  have "inj_on string_of_nat (set [0..<length s])"
    by (rule inj_onI) (rule string_of_nat_inj)
  then show ?thesis
    by (simp add: JStr comp_def distinct_map)
qed auto

lemma map_of_spread:
  assumes "distinct (map fst (own_entries source))"
  shows "map_of (spread object source) key =
     (case map_of (own_entries source) key of
        Some v \<Rightarrow> Some v
      | None \<Rightarrow> map_of object key)"
proof -
  have "distinct (map fst es) \<Longrightarrow>
     map_of (foldl (\<lambda>object (key, v). assign object key v) object es) key =
       (case map_of es key of Some v \<Rightarrow> Some v | None \<Rightarrow> map_of object key)" for es
  proof (induction es arbitrary: object)
    case Nil
    show ?case by simp
  next
    case (Cons e es)
    obtain k v where e: "e = (k, v)" by (cases e)
    from Cons.prems e have "map_of es k = None" and d: "distinct (map fst es)"
      by (auto simp: map_of_eq_None_iff)
    then show ?case
      by (auto simp: e Cons.IH [OF d] map_of_assign split: option.splits)
  qed
  with assms show ?thesis by (simp add: spread_def)
qed

lemma spread_empty: "spread [] (JObj kvs) = kvs" if "distinct (map fst kvs)"
proof -
  have "distinct (map fst (object @ es)) \<Longrightarrow>
     foldl (\<lambda>object (key, v). assign object key v) object es = object @ es" for object es
  proof (induction es arbitrary: object)
    case Nil
    show ?case by simp
  next
    case (Cons e es)
    obtain k v where e: "e = (k, v)" by (cases e)
    from Cons.prems e have "k \<notin> fst ` set object" by auto
    then have "assign object k v = object @ [(k, v)]" by (rule assign_fresh)
    with Cons.IH [of "object @ [(k, v)]"] Cons.prems e show ?case by simp
  qed
  from this [of "[]" kvs] that show ?thesis by (simp add: spread_def)
qed

text \<open>
  C10. Saved props. For a block type with style support, the new \<open>style\<close> prop holds
  every property of the incoming \<open>props.style\<close> with its value, and the inline styles of
  the block's \<open>style\<close> attribute under the remaining keys; the other props are kept.
  For a block type without style support the props are returned as they are.
\<close>

theorem addSaveProps_style:
  "(hasStyleSupport hasBlockSupport keys blockType \<and> wf_val (member (JObj props) ''style'') \<longrightarrow>
      (\<exists>style.
         member (JObj (addSaveProps hasBlockSupport keys props blockType attributes)) ''style''
           = JObj style
       \<and> (\<forall>key. map_of style key =
             (case map_of (own_entries (member (JObj props) ''style'')) key of
                Some v \<Rightarrow> Some v
              | None \<Rightarrow> map_of (getInlineStyles (member (JObj attributes) ''style'')) key))
       \<and> (\<forall>key. key \<noteq> ''style'' \<longrightarrow>
             map_of (addSaveProps hasBlockSupport keys props blockType attributes) key
               = map_of props key)))
   \<and> (\<not> hasStyleSupport hasBlockSupport keys blockType \<longrightarrow>
        addSaveProps hasBlockSupport keys props blockType attributes = props)"
proof (intro conjI impI)
  assume "\<not> hasStyleSupport hasBlockSupport keys blockType"
  then show "addSaveProps hasBlockSupport keys props blockType attributes = props"
    by (simp add: addSaveProps_def)
next
  assume a: "hasStyleSupport hasBlockSupport keys blockType \<and> wf_val (member (JObj props) ''style'')"
  let ?inline = "getInlineStyles (member (JObj attributes) ''style'')"
  let ?own = "member (JObj props) ''style''"
  let ?style = "spread (spread [] (JObj ?inline)) ?own"
  have res: "addSaveProps hasBlockSupport keys props blockType attributes
      = assign props ''style'' (JObj ?style)"
    using a by (simp add: addSaveProps_def Let_def del: member.simps)
  have inline: "spread [] (JObj ?inline) = ?inline"
    by (rule spread_empty) (rule distinct_getInlineStyles)
  have d: "distinct (map fst (own_entries ?own))"
    using a by (intro distinct_own_entries) blast
  have "member (JObj (assign props ''style'' (JObj ?style))) ''style'' = JObj ?style"
    by (simp add: map_of_assign)
  moreover have "\<forall>key. map_of ?style key =
      (case map_of (own_entries ?own) key of Some v \<Rightarrow> Some v | None \<Rightarrow> map_of ?inline key)"
    unfolding inline map_of_spread [OF d] by simp
  moreover have "\<forall>key. key \<noteq> ''style'' \<longrightarrow>
      map_of (assign props ''style'' (JObj ?style)) key = map_of props key"
    by (simp add: map_of_assign)
  ultimately show "\<exists>style.
         member (JObj (addSaveProps hasBlockSupport keys props blockType attributes)) ''style''
           = JObj style
       \<and> (\<forall>key. map_of style key =
             (case map_of (own_entries (member (JObj props) ''style'')) key of
                Some v \<Rightarrow> Some v
              | None \<Rightarrow> map_of (getInlineStyles (member (JObj attributes) ''style'')) key))
       \<and> (\<forall>key. key \<noteq> ''style'' \<longrightarrow>
             map_of (addSaveProps hasBlockSupport keys props blockType attributes) key
               = map_of props key)"
    unfolding res by blast
qed


theorem addSaveProps_style_witness:
  "hasStyleSupport (\<lambda>blockType key. blockType = ''core/paragraph'' \<and> key = ''__experimentalColor'')
     (styleSupportKeys ''__experimentalColor'' ''__experimentalLineHeight'' ''__experimentalFontSize'')
     ''core/paragraph''
   \<and> (\<exists>style.
        member (JObj (addSaveProps
            (\<lambda>blockType key. blockType = ''core/paragraph'' \<and> key = ''__experimentalColor'')
            (styleSupportKeys ''__experimentalColor'' ''__experimentalLineHeight'' ''__experimentalFontSize'')
            [(''className'', JStr ''intro''), (''style'', JObj [(''color'', JStr ''black'')])]
            ''core/paragraph''
            [(''style'', JObj [(''color'', JObj [(''text'', JStr ''var:color|primary''),
                                                 (''background'', JStr ''white'')])])])) ''style''
          = JObj style
      \<and> map_of style ''color'' = Some (JStr ''black'')
      \<and> map_of style ''backgroundColor'' = Some (JStr ''white''))
   \<and> \<not> hasStyleSupport (\<lambda>blockType key. blockType = ''core/paragraph'' \<and> key = ''__experimentalColor'')
     (styleSupportKeys ''__experimentalColor'' ''__experimentalLineHeight'' ''__experimentalFontSize'')
     ''core/image''
   \<and> addSaveProps
        (\<lambda>blockType key. blockType = ''core/paragraph'' \<and> key = ''__experimentalColor'')
        (styleSupportKeys ''__experimentalColor'' ''__experimentalLineHeight'' ''__experimentalFontSize'')
        [(''className'', JStr ''intro'')] ''core/image''
        [(''style'', JObj [(''color'', JObj [(''text'', JStr ''red'')])])]
      = [(''className'', JStr ''intro'')]"
proof -
  let ?support = "\<lambda>blockType key. blockType = ''core/paragraph'' \<and> key = ''__experimentalColor''"
  let ?keys = "styleSupportKeys ''__experimentalColor'' ''__experimentalLineHeight'' ''__experimentalFontSize''"
  let ?props = "[(''className'', JStr ''intro''), (''style'', JObj [(''color'', JStr ''black'')])]"
  let ?attributes = "[(''style'', JObj [(''color'', JObj [(''text'', JStr ''var:color|primary''),
                                                 (''background'', JStr ''white'')])])]"
  have yes: "hasStyleSupport ?support ?keys ''core/paragraph''"
    and no: "\<not> hasStyleSupport ?support ?keys ''core/image''"
    by (simp_all add: hasStyleSupport_def styleSupportKeys_def)
  have wf: "wf_val (member (JObj ?props) ''style'')"
    by simp
  have inline: "getInlineStyles (member (JObj ?attributes) ''style'')
      = [(''backgroundColor'', JStr ''white''), (''color'', JStr ''var(--wp--color--primary)'')]"
    by (simp add: getInlineStyles_def mappings_def VARIABLE_REFERENCE_PREFIX_def startsWith_def
        VARIABLE_PATH_SEPARATOR_TOKEN_ATTRIBUTE_def VARIABLE_PATH_SEPARATOR_TOKEN_STYLE_def)
  from addSaveProps_style [of ?support ?keys "''core/paragraph''" ?props ?attributes] yes wf
  obtain style where
    s: "member (JObj (addSaveProps ?support ?keys ?props ''core/paragraph'' ?attributes)) ''style''
          = JObj style"
    and m: "\<forall>key. map_of style key =
             (case map_of (own_entries (member (JObj ?props) ''style'')) key of
                Some v \<Rightarrow> Some v
              | None \<Rightarrow> map_of (getInlineStyles (member (JObj ?attributes) ''style'')) key)"
    by blast
  from m have "map_of style ''color'' = Some (JStr ''black'')"
    and "map_of style ''backgroundColor'' = Some (JStr ''white'')"
    unfolding inline by simp_all
  with s have "\<exists>style.
        member (JObj (addSaveProps ?support ?keys ?props ''core/paragraph'' ?attributes)) ''style''
          = JObj style
      \<and> map_of style ''color'' = Some (JStr ''black'')
      \<and> map_of style ''backgroundColor'' = Some (JStr ''white'')"
    by blast
  moreover from no
    addSaveProps_style [of ?support ?keys "''core/image''" "[(''className'', JStr ''intro'')]"
      "[(''style'', JObj [(''color'', JObj [(''text'', JStr ''red'')])])]"]
  have "addSaveProps ?support ?keys [(''className'', JStr ''intro'')] ''core/image''
        [(''style'', JObj [(''color'', JObj [(''text'', JStr ''red'')])])]
      = [(''className'', JStr ''intro'')]"
    by blast
  ultimately show ?thesis using yes no by blast
qed



section \<open>The heap computation refines the computation on values\<close>

lemma hval_of_not_ref [simp]: "hval_of v \<noteq> HRef a"
  by (cases v) auto

lemma own_footprint: "own h hv v F \<Longrightarrow> F \<subseteq> {..<length h}"
  by (induction rule: own.induct) (auto, blast)

lemma own_frame:
  "own h hv v F \<Longrightarrow> length h \<le> length h' \<Longrightarrow> (\<And>a. a \<in> F \<Longrightarrow> h' ! a = h ! a) \<Longrightarrow> own h' hv v F"
proof (induction arbitrary: h' rule: own.induct)
  case (own_leaf v h)
  then show ?case by (simp add: own.own_leaf)
next
  case (own_obj d h kvs G)
  have same: "h' ! d = h ! d" using own_obj.prems(2) by simp
  show ?case
  proof (rule own.own_obj)
    show "d < length h'" using own_obj.hyps(1) own_obj.prems(1) by simp
    show "map fst (h' ! d) = map fst kvs" using own_obj.hyps(2) same by simp
    show "distinct (map fst kvs)" by fact
    show "own h' (h_member (h' ! d) k) v (G k)" if "(k, v) \<in> set kvs" for k v
    proof -
      have "k \<in> fst ` set kvs" using that by force
      then have "\<And>a. a \<in> G k \<Longrightarrow> h' ! a = h ! a"
        using own_obj.prems(2) by auto
      from own_obj.IH [OF that own_obj.prems(1) this] same show ?thesis by simp
    qed
  qed (use own_obj.hyps in auto)
qed

lemma own_leaf_iff:
  assumes "\<And>kvs. v \<noteq> JObj kvs"
  shows "own h hv v F \<longleftrightarrow> hv = hval_of v \<and> F = {}"
  using assms by (auto elim: own.cases intro: own.own_leaf)

lemma own_ref_cases:
  assumes "own h (HRef d) (JObj kvs) F"
  shows "\<exists>G. d < length h \<and> map fst (h ! d) = map fst kvs \<and> distinct (map fst kvs)
    \<and> (\<forall>k v. (k, v) \<in> set kvs \<longrightarrow> own h (h_member (h ! d) k) v (G k))
    \<and> (\<forall>k k'. k \<in> fst ` set kvs \<longrightarrow> k' \<in> fst ` set kvs \<longrightarrow> k \<noteq> k' \<longrightarrow> G k \<inter> G k' = {})
    \<and> (\<forall>k. k \<in> fst ` set kvs \<longrightarrow> d \<notin> G k)
    \<and> F = insert d (\<Union>k \<in> fst ` set kvs. G k)"
  using assms
proof (cases rule: own.cases)
  case own_leaf
  then show ?thesis by (auto dest: sym)
next
  case (own_obj G)
  show ?thesis
    by (rule exI [of _ G]) (use own_obj in auto)
qed

lemma own_empty: "own (h @ [[]]) (HRef (length h)) (JObj []) {length h}"
  using own.own_obj [of "length h" "h @ [[]]" "[]" "\<lambda>_. {}"] by simp

lemma srepr_leaf: "(\<And>kvs. v \<noteq> JObj kvs) \<Longrightarrow> srepr R h hv v \<longleftrightarrow> hv = hval_of v"
  by (cases v) auto

lemma srepr_frame:
  "srepr R h hv v \<Longrightarrow> (\<And>a. a \<in> R \<Longrightarrow> h' ! a = h ! a) \<Longrightarrow> srepr R h' hv v"
proof (induction R h hv v rule: srepr.induct)
  case (1 R h hv kvs)
  from "1.prems"(1) obtain a where hv: "hv = HRef a" and a: "a \<in> R"
    and keys: "map fst (h ! a) = map fst kvs" and d: "distinct (map fst kvs)"
    and ch: "list_all (\<lambda>(k, v). srepr R h (h_member (h ! a) k) v) kvs"
    by (cases hv) auto
  have same: "h' ! a = h ! a" using "1.prems"(2) a by simp
  have "list_all (\<lambda>(k, v). srepr R h' (h_member (h' ! a) k) v) kvs"
    unfolding list_all_iff
  proof (intro ballI, clarify)
    fix k v assume kv: "(k, v) \<in> set kvs"
    with ch have "srepr R h (h_member (h ! a) k) v" by (auto simp: list_all_iff)
    from "1.IH" [OF hv kv refl this "1.prems"(2)] same
    show "srepr R h' (h_member (h' ! a) k) v" by simp
  qed
  with hv a keys d same show ?case by simp
qed simp_all

lemma srepr_mono: "srepr R h hv v \<Longrightarrow> R \<subseteq> R' \<Longrightarrow> srepr R' h hv v"
proof (induction R h hv v rule: srepr.induct)
  case (1 R h hv kvs)
  from "1.prems"(1) obtain a where hv: "hv = HRef a" and a: "a \<in> R"
    and keys: "map fst (h ! a) = map fst kvs" and d: "distinct (map fst kvs)"
    and ch: "list_all (\<lambda>(k, v). srepr R h (h_member (h ! a) k) v) kvs"
    by (cases hv) auto
  have "list_all (\<lambda>(k, v). srepr R' h (h_member (h ! a) k) v) kvs"
    unfolding list_all_iff
  proof (intro ballI, clarify)
    fix k v assume kv: "(k, v) \<in> set kvs"
    with ch have "srepr R h (h_member (h ! a) k) v" by (auto simp: list_all_iff)
    from "1.IH" [OF hv kv refl this "1.prems"(2)]
    show "srepr R' h (h_member (h ! a) k) v" .
  qed
  with hv a keys d "1.prems"(2) show ?case by auto
qed simp_all

lemma own_imp_srepr: "own h hv v F \<Longrightarrow> F \<subseteq> R \<Longrightarrow> srepr R h hv v"
proof (induction rule: own.induct)
  case (own_leaf v h)
  then show ?case by (simp add: srepr_leaf)
next
  case (own_obj d h kvs G)
  have "list_all (\<lambda>(k, v). srepr R h (h_member (h ! d) k) v) kvs"
    unfolding list_all_iff
  proof (intro ballI, clarify)
    fix k v assume kv: "(k, v) \<in> set kvs"
    then have "k \<in> fst ` set kvs" by force
    with own_obj.prems have "G k \<subseteq> R" by auto
    from own_obj.IH [OF kv this] show "srepr R h (h_member (h ! d) k) v" .
  qed
  with own_obj.hyps(1-3) own_obj.prems show ?case by simp
qed

lemma map_fst_assign:
  "map fst o1 = map fst o2 \<Longrightarrow> map fst (assign o1 k v) = map fst (assign o2 k w)"
proof (induction o1 arbitrary: o2)
  case Nil
  then show ?case by simp
next
  case (Cons e o1)
  then obtain e' o2' where "o2 = e' # o2'" by (cases o2) auto
  with Cons show ?case by (cases e; cases e') auto
qed

lemma set_assign_other: "(k', v') \<in> set (assign D k X) \<Longrightarrow> k' \<noteq> k \<Longrightarrow> (k', v') \<in> set D"
  using set_assign [of D k X] by auto

lemma set_assign_same:
  assumes "distinct (map fst D)" and "(k, v') \<in> set (assign D k X)"
  shows "v' = X"
proof -
  have "distinct (map fst (assign D k X))" using assms(1) by (rule distinct_assign)
  with assms(2) have "map_of (assign D k X) k = Some v'" by simp
  then show ?thesis by (simp add: map_of_assign)
qed

lemma h_member_assign: "h_member (assign ob k v) k' = (if k' = k then v else h_member ob k')"
  by (simp add: h_member_def map_of_assign)

lemma keys_eq: "map fst o1 = map fst o2 \<Longrightarrow> fst ` set o1 = fst ` set o2"
  by (metis set_map)

lemma own_set_child:
  assumes d: "d < length h" and keys: "map fst (h ! d) = map fst D" and dist: "distinct (map fst D)"
    and ch: "\<And>k' v'. (k', v') \<in> set D \<Longrightarrow> own h (h_member (h ! d) k') v' (G k')"
    and dj: "\<And>k1 k2. k1 \<in> fst ` set D \<Longrightarrow> k2 \<in> fst ` set D \<Longrightarrow> k1 \<noteq> k2 \<Longrightarrow> G k1 \<inter> G k2 = {}"
    and nd: "\<And>k'. k' \<in> fst ` set D \<Longrightarrow> d \<notin> G k'"
    and len: "length h \<le> length h1"
    and hd: "h1 ! d = h ! d"
    and frame: "\<And>k' a. k' \<in> fst ` set D \<Longrightarrow> k' \<noteq> k \<Longrightarrow> a \<in> G k' \<Longrightarrow> h1 ! a = h ! a"
    and new: "own h1 hv X Fc" and dnew: "d \<notin> Fc"
    and djnew: "\<And>k'. k' \<in> fst ` set D \<Longrightarrow> k' \<noteq> k \<Longrightarrow> Fc \<inter> G k' = {}"
  shows "own (h1[d := assign (h ! d) k hv]) (HRef d) (JObj (assign D k X))
           (insert d (\<Union>k' \<in> fst ` set (assign D k X). (G(k := Fc)) k'))"
proof (rule own.own_obj)
  let ?h2 = "h1[d := assign (h ! d) k hv]"
  have d1: "d < length h1" using d len by simp
  then have h2d: "?h2 ! d = assign (h ! d) k hv" by simp
  show "d < length ?h2" using d1 by simp
  show "map fst (?h2 ! d) = map fst (assign D k X)"
    unfolding h2d using keys by (rule map_fst_assign)
  show "distinct (map fst (assign D k X))" using dist by (rule distinct_assign)
  have ks: "fst ` set (assign D k X) = insert k (fst ` set D)" by (rule keys_assign)
  show "own ?h2 (h_member (?h2 ! d) k') v' ((G(k := Fc)) k')"
    if kv: "(k', v') \<in> set (assign D k X)" for k' v'
  proof (cases "k' = k")
    case True
    with kv dist have "v' = X" by (auto dest: set_assign_same)
    moreover have "own ?h2 hv X Fc"
      using new
    proof (rule own_frame)
      show "length h1 \<le> length ?h2" by simp
      show "?h2 ! a = h1 ! a" if "a \<in> Fc" for a
        using that dnew by (cases "a = d") auto
    qed
    ultimately show ?thesis using True by (simp add: h2d h_member_assign)
  next
    case False
    with kv have in_D: "(k', v') \<in> set D" by (rule set_assign_other)
    then have k'D: "k' \<in> fst ` set D" by force
    have "own ?h2 (h_member (h ! d) k') v' (G k')"
      using ch [OF in_D]
    proof (rule own_frame)
      show "length h \<le> length ?h2" using len by simp
      show "?h2 ! a = h ! a" if "a \<in> G k'" for a
      proof -
        from that nd [OF k'D] have "a \<noteq> d" by auto
        then have "?h2 ! a = h1 ! a" by simp
        with frame [OF k'D False that] show ?thesis by simp
      qed
    qed
    with False show ?thesis by (simp add: h2d h_member_assign)
  qed
  show "(G(k := Fc)) k1 \<inter> (G(k := Fc)) k2 = {}"
    if "k1 \<in> fst ` set (assign D k X)" "k2 \<in> fst ` set (assign D k X)" "k1 \<noteq> k2" for k1 k2
    using that dj djnew unfolding ks by (auto simp: Int_commute)
  show "d \<notin> (G(k := Fc)) k'" if "k' \<in> fst ` set (assign D k X)" for k'
    using that nd dnew unfolding ks by auto
qed

lemma h_assignMergeValue_eq:
  "d < length h \<Longrightarrow> h_assignMergeValue h d k v =
     (if v = HUndefined \<and> k \<in> fst ` set (h ! d) then h else h[d := assign (h ! d) k v])"
proof (cases "v \<noteq> HUndefined \<and> h_member (h ! d) k = v")
  case True
  assume d: "d < length h"
  from True have "map_of (h ! d) k = Some v"
    by (auto simp: h_member_def split: option.splits)
  then have "assign (h ! d) k v = h ! d" by (rule assign_same)
  with True d show ?thesis by (simp add: h_assignMergeValue_def)
next
  case False
  then show ?thesis by (auto simp: h_assignMergeValue_def)
qed

text \<open>Storing a leaf in an owned object.\<close>

lemma own_assign_leaf:
  assumes own: "own h (HRef d) (JObj D) F" and leaf: "\<And>kvs. v \<noteq> JObj kvs"
  shows "\<exists>F1. own (h_assignMergeValue h d k (hval_of v)) (HRef d) (JObj (assignMergeValue D k v)) F1
           \<and> F1 \<subseteq> F"
proof -
  from own_ref_cases [OF own] obtain G where d: "d < length h"
    and keys: "map fst (h ! d) = map fst D"
    and dist: "distinct (map fst D)"
    and ch: "\<And>k' v'. (k', v') \<in> set D \<Longrightarrow> own h (h_member (h ! d) k') v' (G k')"
    and dj: "\<And>k1 k2. k1 \<in> fst ` set D \<Longrightarrow> k2 \<in> fst ` set D \<Longrightarrow> k1 \<noteq> k2 \<Longrightarrow> G k1 \<inter> G k2 = {}"
    and nd: "\<And>k'. k' \<in> fst ` set D \<Longrightarrow> d \<notin> G k'"
    and F: "F = insert d (\<Union>k' \<in> fst ` set D. G k')"
    by blast
  have und: "hval_of v = HUndefined \<longleftrightarrow> v = JUndefined"
    using leaf by (cases v) auto
  have kk: "k \<in> fst ` set (h ! d) \<longleftrightarrow> k \<in> fst ` set D"
    using keys_eq [OF keys] by simp
  show ?thesis
  proof (cases "v = JUndefined \<and> k \<in> fst ` set D")
    case True
    then show ?thesis
      using own d by (auto simp: h_assignMergeValue_eq assignMergeValue_eq kk)
  next
    case False
    have "own (h[d := assign (h ! d) k (hval_of v)]) (HRef d) (JObj (assign D k v))
           (insert d (\<Union>k' \<in> fst ` set (assign D k v). (G(k := {})) k'))"
    proof (rule own_set_child [OF d keys dist ch dj nd])
      show "own h (hval_of v) v {}" using leaf by (rule own.own_leaf)
    qed auto
    moreover have "insert d (\<Union>k' \<in> fst ` set (assign D k v). (G(k := {})) k') \<subseteq> F"
      unfolding F keys_assign by auto
    ultimately show ?thesis
      using False d und by (auto simp: h_assignMergeValue_eq assignMergeValue_eq kk)
  qed
qed

lemma h_assignMergeValue_frame:
  "length (h_assignMergeValue h d k v) = length h"
  "a \<noteq> d \<Longrightarrow> h_assignMergeValue h d k v ! a = h ! a"
  by (simp_all add: h_assignMergeValue_def)

lemma own_obj_ref: "own h hv (JObj kvs) F \<Longrightarrow> \<exists>c. hv = HRef c \<and> c \<in> F"
  by (erule own.cases) auto

lemma srepr_obj_cases:
  assumes "srepr R h hv (JObj kvs)"
  shows "\<exists>a. hv = HRef a \<and> a \<in> R \<and> map fst (h ! a) = map fst kvs \<and> distinct (map fst kvs)
     \<and> (\<forall>k v. (k, v) \<in> set kvs \<longrightarrow> srepr R h (h_member (h ! a) k) v)"
  using assms by (cases hv) (auto simp: list_all_iff)

lemma foldr_max_ge: "x \<in> set xs \<Longrightarrow> x \<le> foldr max xs (0::nat)"
  by (induction xs) (auto simp: max_def)

lemma depth_child: "(k, v) \<in> set kvs \<Longrightarrow> depth v < depth (JObj kvs)"
proof -
  assume "(k, v) \<in> set kvs"
  then have "depth v \<in> set (map depth (map snd kvs))" by force
  from foldr_max_ge [OF this] show ?thesis by simp
qed

lemma h_baseMerge_leaf:
  assumes "\<And>a. h_member (h ! s) k \<noteq> HRef a"
  shows "h_baseMerge fuel h d s (k # props)
     = h_baseMerge fuel (h_assignMergeValue h d k (h_member (h ! s) k)) d s props"
  using assms by (cases "h_member (h ! s) k") auto

lemma h_baseMerge_object:
  assumes "h_member (h ! s) k = HRef s'"
  shows "h_baseMerge (Suc fuel) h d s (k # props) =
     (let objValue = h_member (h ! d) k;
          h0 = (case objValue of HRef c \<Rightarrow> h | _ \<Rightarrow> h @ [[]]);
          newValue = (case objValue of HRef c \<Rightarrow> c | _ \<Rightarrow> length h)
      in case (if newValue = s' then Some h0
               else h_baseMerge fuel h0 newValue s' (map fst (h0 ! s'))) of
           None \<Rightarrow> None
         | Some h1 \<Rightarrow>
             h_baseMerge (Suc fuel) (h_assignMergeValue h1 d k (HRef newValue)) d s props)"
  using assms by simp

text \<open>One property of the source, merged into an owned object.\<close>

lemma h_baseMerge_step:
  assumes outer: "\<And>fuel' h s S d D F.
      fuel' < fuel \<Longrightarrow> srepr R h (HRef s) (JObj S) \<Longrightarrow> own h (HRef d) (JObj D) F
      \<Longrightarrow> F \<inter> R = {} \<Longrightarrow> R \<subseteq> {..<length h} \<Longrightarrow> depth (JObj S) \<le> Suc fuel'
      \<Longrightarrow> \<exists>h' F'. h_baseMerge fuel' h d s (map fst S) = Some h'
            \<and> own h' (HRef d) (JObj (baseMerge D S)) F'
            \<and> F' \<subseteq> F \<union> {length h..<length h'} \<and> length h \<le> length h'
            \<and> (\<forall>a<length h. a \<notin> F \<longrightarrow> h' ! a = h ! a)"
    and src: "srepr R h (HRef s) (JObj S)" and kv: "(k, v) \<in> set S"
    and own: "own h (HRef d) (JObj D) F"
    and FR: "F \<inter> R = {}" and R: "R \<subseteq> {..<length h}" and dep: "depth v \<le> fuel"
  shows "\<exists>h1 F1. (\<forall>props. h_baseMerge fuel h d s (k # props) = h_baseMerge fuel h1 d s props)
     \<and> own h1 (HRef d)
         (JObj (case v of
                  JObj s' \<Rightarrow>
                    assignMergeValue D k
                      (JObj (baseMerge (case member (JObj D) k of JObj d' \<Rightarrow> d' | _ \<Rightarrow> []) s'))
                | _ \<Rightarrow> assignMergeValue D k v)) F1
     \<and> F1 \<subseteq> F \<union> {length h..<length h1} \<and> length h \<le> length h1
     \<and> (\<forall>a<length h. a \<notin> F \<longrightarrow> h1 ! a = h ! a)"
proof -
  from srepr_obj_cases [OF src] kv have sR: "s \<in> R"
    and sv: "srepr R h (h_member (h ! s) k) v"
    by auto
  from own_ref_cases [OF own] obtain G where d: "d < length h"
    and keys: "map fst (h ! d) = map fst D"
    and dist: "distinct (map fst D)"
    and ch: "\<And>k' v'. (k', v') \<in> set D \<Longrightarrow> own h (h_member (h ! d) k') v' (G k')"
    and dj: "\<And>k1 k2. k1 \<in> fst ` set D \<Longrightarrow> k2 \<in> fst ` set D \<Longrightarrow> k1 \<noteq> k2 \<Longrightarrow> G k1 \<inter> G k2 = {}"
    and nd: "\<And>k'. k' \<in> fst ` set D \<Longrightarrow> d \<notin> G k'"
    and F: "F = insert d (\<Union>k' \<in> fst ` set D. G k')"
    by blast
  have Gsub: "G k' \<subseteq> F" if "k' \<in> fst ` set D" for k'
    using that F by auto
  have Glen: "G k' \<subseteq> {..<length h}" if "k' \<in> fst ` set D" for k'
    using Gsub [OF that] own_footprint [OF own] by auto
  show ?thesis
  proof (cases "\<exists>S'. v = JObj S'")
    case False
    then have leaf: "\<And>kvs. v \<noteq> JObj kvs" by auto
    with sv have hv: "h_member (h ! s) k = hval_of v" by (simp add: srepr_leaf)
    let ?h1 = "h_assignMergeValue h d k (hval_of v)"
    from own_assign_leaf [OF own leaf, of k] obtain F1 where
      o1: "own ?h1 (HRef d) (JObj (assignMergeValue D k v)) F1" and F1: "F1 \<subseteq> F"
      by blast
    have "\<forall>props. h_baseMerge fuel h d s (k # props) = h_baseMerge fuel ?h1 d s props"
      using h_baseMerge_leaf [of h s k fuel d] hv by simp
    moreover have "(case v of
                  JObj s' \<Rightarrow>
                    assignMergeValue D k
                      (JObj (baseMerge (case member (JObj D) k of JObj d' \<Rightarrow> d' | _ \<Rightarrow> []) s'))
                | _ \<Rightarrow> assignMergeValue D k v) = assignMergeValue D k v"
      using leaf by (cases v) auto
    moreover have "\<forall>a<length h. a \<notin> F \<longrightarrow> ?h1 ! a = h ! a"
      using F by (auto simp: h_assignMergeValue_frame)
    ultimately show ?thesis
      using o1 F1 by (intro exI [of _ ?h1] exI [of _ F1]) (auto simp: h_assignMergeValue_frame)
  next
    case True
    then obtain S' where v: "v = JObj S'" by blast
    from srepr_obj_cases [OF sv [unfolded v]] obtain s' where hs: "h_member (h ! s) k = HRef s'"
      and s'R: "s' \<in> R" and s'keys: "map fst (h ! s') = map fst S'"
      by blast
    from sv v hs have src': "srepr R h (HRef s') (JObj S')" by simp
    from dep v obtain fuel' where fuel: "fuel = Suc fuel'" and dep': "depth (JObj S') \<le> Suc fuel'"
      by (cases fuel) auto
    have s'len: "s' < length h" using s'R R by auto
    let ?C = "case member (JObj D) k of JObj d' \<Rightarrow> d' | _ \<Rightarrow> []"
    let ?X = "JObj (baseMerge ?C S')"
    have D1: "(case v of
                  JObj s' \<Rightarrow>
                    assignMergeValue D k
                      (JObj (baseMerge (case member (JObj D) k of JObj d' \<Rightarrow> d' | _ \<Rightarrow> []) s'))
                | _ \<Rightarrow> assignMergeValue D k v) = assign D k ?X"
      by (simp add: v assignMergeValue_eq)
    have ks: "fst ` set (assign D k ?X) = insert k (fst ` set D)" by (rule keys_assign)
    show ?thesis
    proof (cases "\<exists>C. map_of D k = Some (JObj C)")
      case True
      then obtain C where mC: "map_of D k = Some (JObj C)" by blast
      then have inD: "(k, JObj C) \<in> set D" by (rule map_of_SomeD)
      then have kD: "k \<in> fst ` set D" by force
      from own_obj_ref [OF ch [OF inD]] obtain c where hc: "h_member (h ! d) k = HRef c"
        and cG: "c \<in> G k" by blast
      have ownc: "own h (HRef c) (JObj C) (G k)" using ch [OF inD] hc by simp
      have C: "?C = C" using mC by simp
      have GR: "G k \<inter> R = {}" using Gsub [OF kD] FR by auto
      from outer [OF _ src' ownc GR R dep', unfolded fuel] obtain h1 Fc where
        run: "h_baseMerge fuel' h c s' (map fst S') = Some h1"
        and own1: "own h1 (HRef c) (JObj (baseMerge C S')) Fc"
        and Fc: "Fc \<subseteq> G k \<union> {length h..<length h1}" and len: "length h \<le> length h1"
        and fr: "\<forall>a<length h. a \<notin> G k \<longrightarrow> h1 ! a = h ! a"
        by blast
      have cs: "c \<noteq> s'" using cG GR s'R by auto
      have h1d: "h1 ! d = h ! d" using fr d nd [OF kD] by simp
      let ?h2 = "h1[d := assign (h ! d) k (HRef c)]"
      have upd: "h_assignMergeValue h1 d k (HRef c) = ?h2"
        using d len by (simp add: h_assignMergeValue_eq h1d)
      have step: "\<forall>props. h_baseMerge fuel h d s (k # props) = h_baseMerge fuel ?h2 d s props"
        unfolding fuel h_baseMerge_object [OF hs]
        by (simp add: hc cs s'keys run upd Let_def)
      have own2: "own ?h2 (HRef d) (JObj (assign D k ?X))
           (insert d (\<Union>k' \<in> fst ` set (assign D k ?X). (G(k := Fc)) k'))"
      proof (rule own_set_child [OF d keys dist ch dj nd len h1d])
        show "h1 ! a = h ! a" if "k' \<in> fst ` set D" "k' \<noteq> k" "a \<in> G k'" for k' a
        proof -
          from that dj [OF that(1) kD that(2)] have "a \<notin> G k" by auto
          moreover from that Glen [OF that(1)] have "a < length h" by auto
          ultimately show ?thesis using fr by simp
        qed
        show "own h1 (HRef c) ?X Fc" using own1 C by simp
        show "d \<notin> Fc" using Fc nd [OF kD] d by auto
        show "Fc \<inter> G k' = {}" if "k' \<in> fst ` set D" "k' \<noteq> k" for k'
        proof -
          have "G k \<inter> G k' = {}" using dj [OF kD that(1)] that(2) by simp
          moreover have "{length h..<length h1} \<inter> G k' = {}" using Glen [OF that(1)] by auto
          ultimately show ?thesis using Fc by blast
        qed
      qed
      have sub: "insert d (\<Union>k' \<in> fst ` set (assign D k ?X). (G(k := Fc)) k')
          \<subseteq> F \<union> {length h..<length ?h2}"
        unfolding ks using Fc Gsub [OF kD] F by auto
      have frame: "\<forall>a<length h. a \<notin> F \<longrightarrow> ?h2 ! a = h ! a"
        using fr F kD by auto
      show ?thesis
        unfolding D1
      proof (intro exI conjI)
        show "\<forall>props. h_baseMerge fuel h d s (k # props) = h_baseMerge fuel ?h2 d s props"
          by (rule step)
        show "own ?h2 (HRef d) (JObj (assign D k ?X))
           (insert d (\<Union>k' \<in> fst ` set (assign D k ?X). (G(k := Fc)) k'))"
          by (rule own2)
        show "insert d (\<Union>k' \<in> fst ` set (assign D k ?X). (G(k := Fc)) k')
          \<subseteq> F \<union> {length h..<length ?h2}"
          by (rule sub)
        show "length h \<le> length ?h2" using len by simp
        show "\<forall>a<length h. a \<notin> F \<longrightarrow> ?h2 ! a = h ! a" by (rule frame)
      qed
    next
      case False
      have notref: "h_member (h ! d) k \<noteq> HRef c" for c
      proof (cases "map_of D k")
        case None
        then have "k \<notin> fst ` set D" by (simp add: map_of_eq_None_iff)
        then have "k \<notin> fst ` set (h ! d)" using keys_eq [OF keys] by simp
        then have "map_of (h ! d) k = None" by (simp add: map_of_eq_None_iff)
        then show ?thesis by (simp add: h_member_def)
      next
        case (Some w)
        with False have leafw: "\<And>kvs. w \<noteq> JObj kvs" by auto
        from Some have "(k, w) \<in> set D" by (rule map_of_SomeD)
        from ch [OF this] leafw have "h_member (h ! d) k = hval_of w"
          by (simp add: own_leaf_iff)
        then show ?thesis by simp
      qed
      have C: "?C = []"
        using False by (cases "map_of D k") (auto split: jsval.splits)
      let ?c = "length h"
      let ?h0 = "h @ [[]]"
      have src0: "srepr R ?h0 (HRef s') (JObj S')"
        using src' by (rule srepr_frame) (use R in \<open>auto simp: nth_append\<close>)
      have R0: "R \<subseteq> {..<length ?h0}" using R by auto
      have cR: "{?c} \<inter> R = {}" using R by auto
      from outer [OF _ src0 own_empty cR R0 dep', unfolded fuel] obtain h1 Fc where
        run: "h_baseMerge fuel' ?h0 ?c s' (map fst S') = Some h1"
        and own1: "own h1 (HRef ?c) (JObj (baseMerge [] S')) Fc"
        and Fc: "Fc \<subseteq> {?c} \<union> {length ?h0..<length h1}" and len0: "length ?h0 \<le> length h1"
        and fr: "\<forall>a<length ?h0. a \<notin> {?c} \<longrightarrow> h1 ! a = ?h0 ! a"
        by blast
      have len: "length h \<le> length h1" using len0 by simp
      have "{length h} \<union> {length (h @ [[]])..<length h1} \<subseteq> {length h..<length h1}"
        using len0 by auto
      with Fc have Fc': "Fc \<subseteq> {length h..<length h1}" by (rule subset_trans)
      have fr': "h1 ! a = h ! a" if "a < length h" for a
        using fr that by (simp add: nth_append)
      have cs: "?c \<noteq> s'" using s'len by simp
      have s'keys0: "map fst (?h0 ! s') = map fst S'" using s'keys s'len by (simp add: nth_append)
      have h1d: "h1 ! d = h ! d" using fr' d by simp
      let ?h2 = "h1[d := assign (h ! d) k (HRef ?c)]"
      have upd: "h_assignMergeValue h1 d k (HRef ?c) = ?h2"
        using d len by (simp add: h_assignMergeValue_eq h1d)
      have hcase: "(case h_member (h ! d) k of HRef c \<Rightarrow> h | _ \<Rightarrow> h @ [[]]) = ?h0"
          "(case h_member (h ! d) k of HRef c \<Rightarrow> c | _ \<Rightarrow> length h) = ?c"
        using notref by (cases "h_member (h ! d) k"; simp)+
      have step: "\<forall>props. h_baseMerge fuel h d s (k # props) = h_baseMerge fuel ?h2 d s props"
        unfolding fuel h_baseMerge_object [OF hs] Let_def hcase
        using cs by (simp add: s'keys0 run upd)
      have own2: "own ?h2 (HRef d) (JObj (assign D k ?X))
           (insert d (\<Union>k' \<in> fst ` set (assign D k ?X). (G(k := Fc)) k'))"
      proof (rule own_set_child [OF d keys dist ch dj nd len h1d])
        show "h1 ! a = h ! a" if "k' \<in> fst ` set D" "k' \<noteq> k" "a \<in> G k'" for k' a
          using fr' Glen [OF that(1)] that(3) by auto
        show "own h1 (HRef ?c) ?X Fc" using own1 C by simp
        show "d \<notin> Fc" using Fc' d by auto
        show "Fc \<inter> G k' = {}" if "k' \<in> fst ` set D" "k' \<noteq> k" for k'
          using Fc' Glen [OF that(1)] by (fastforce simp: subset_iff)
      qed
      have sub: "insert d (\<Union>k' \<in> fst ` set (assign D k ?X). (G(k := Fc)) k')
          \<subseteq> F \<union> {length h..<length ?h2}"
        unfolding ks using Fc' F by auto
      have frame: "\<forall>a<length h. a \<notin> F \<longrightarrow> ?h2 ! a = h ! a"
        using fr' F by auto
      show ?thesis
        unfolding D1
      proof (intro exI conjI)
        show "\<forall>props. h_baseMerge fuel h d s (k # props) = h_baseMerge fuel ?h2 d s props"
          by (rule step)
        show "own ?h2 (HRef d) (JObj (assign D k ?X))
           (insert d (\<Union>k' \<in> fst ` set (assign D k ?X). (G(k := Fc)) k'))"
          by (rule own2)
        show "insert d (\<Union>k' \<in> fst ` set (assign D k ?X). (G(k := Fc)) k')
          \<subseteq> F \<union> {length h..<length ?h2}"
          by (rule sub)
        show "length h \<le> length ?h2" using len by simp
        show "\<forall>a<length h. a \<notin> F \<longrightarrow> ?h2 ! a = h ! a" by (rule frame)
      qed
    qed
  qed
qed

lemma h_baseMerge_loop:
  assumes outer: "\<And>fuel' h s S d D F.
      fuel' < fuel \<Longrightarrow> srepr R h (HRef s) (JObj S) \<Longrightarrow> own h (HRef d) (JObj D) F
      \<Longrightarrow> F \<inter> R = {} \<Longrightarrow> R \<subseteq> {..<length h} \<Longrightarrow> depth (JObj S) \<le> Suc fuel'
      \<Longrightarrow> \<exists>h' F'. h_baseMerge fuel' h d s (map fst S) = Some h'
            \<and> own h' (HRef d) (JObj (baseMerge D S)) F'
            \<and> F' \<subseteq> F \<union> {length h..<length h'} \<and> length h \<le> length h'
            \<and> (\<forall>a<length h. a \<notin> F \<longrightarrow> h' ! a = h ! a)"
  shows "srepr R h (HRef s) (JObj S) \<Longrightarrow> set S2 \<subseteq> set S \<Longrightarrow> own h (HRef d) (JObj D) F
    \<Longrightarrow> F \<inter> R = {} \<Longrightarrow> R \<subseteq> {..<length h} \<Longrightarrow> (\<And>k v. (k, v) \<in> set S2 \<Longrightarrow> depth v \<le> fuel)
    \<Longrightarrow> \<exists>h' F'. h_baseMerge fuel h d s (map fst S2) = Some h'
          \<and> own h' (HRef d) (JObj (baseMerge D S2)) F'
          \<and> F' \<subseteq> F \<union> {length h..<length h'} \<and> length h \<le> length h'
          \<and> (\<forall>a<length h. a \<notin> F \<longrightarrow> h' ! a = h ! a)"
proof (induction S2 arbitrary: h D F)
  case Nil
  then show ?case by auto
next
  case (Cons e S2)
  obtain k v where e: "e = (k, v)" by (cases e)
  from Cons.prems(2) e have kv: "(k, v) \<in> set S" and sub: "set S2 \<subseteq> set S" by auto
  have dep: "depth v \<le> fuel" using Cons.prems(6) [of k v] e by simp
  let ?D1 = "case v of
               JObj s' \<Rightarrow>
                 assignMergeValue D k
                   (JObj (baseMerge (case member (JObj D) k of JObj d' \<Rightarrow> d' | _ \<Rightarrow> []) s'))
             | _ \<Rightarrow> assignMergeValue D k v"
  from h_baseMerge_step [OF outer Cons.prems(1) kv Cons.prems(3,4,5) dep]
  obtain h1 F1 where step: "\<And>props. h_baseMerge fuel h d s (k # props) = h_baseMerge fuel h1 d s props"
    and own1: "own h1 (HRef d) (JObj ?D1) F1"
    and F1: "F1 \<subseteq> F \<union> {length h..<length h1}" and len1: "length h \<le> length h1"
    and fr1: "\<forall>a<length h. a \<notin> F \<longrightarrow> h1 ! a = h ! a"
    by blast
  have src1: "srepr R h1 (HRef s) (JObj S)"
    using Cons.prems(1)
  proof (rule srepr_frame)
    fix a assume "a \<in> R"
    with Cons.prems(4,5) have "a < length h" "a \<notin> F" by auto
    with fr1 show "h1 ! a = h ! a" by simp
  qed
  have FR1: "F1 \<inter> R = {}"
  proof -
    have "{length h..<length h1} \<inter> R = {}" using Cons.prems(5) by auto
    with F1 Cons.prems(4) show ?thesis by blast
  qed
  have R1: "R \<subseteq> {..<length h1}" using Cons.prems(5) len1 by auto
  from Cons.IH [OF src1 sub own1 FR1 R1] Cons.prems(6)
  obtain h' F' where run: "h_baseMerge fuel h1 d s (map fst S2) = Some h'"
    and own': "own h' (HRef d) (JObj (baseMerge ?D1 S2)) F'"
    and F': "F' \<subseteq> F1 \<union> {length h1..<length h'}" and len': "length h1 \<le> length h'"
    and fr': "\<forall>a<length h1. a \<notin> F1 \<longrightarrow> h' ! a = h1 ! a"
    by (auto simp: e)
  show ?case
  proof (intro exI conjI)
    show "h_baseMerge fuel h d s (map fst (e # S2)) = Some h'"
      using step run by (simp add: e)
    show "own h' (HRef d) (JObj (baseMerge D (e # S2))) F'"
      using own' by (simp add: e)
    show "F' \<subseteq> F \<union> {length h..<length h'}"
    proof -
      have "{length h..<length h1} \<union> {length h1..<length h'} \<subseteq> {length h..<length h'}"
        using len1 len' by auto
      with F' F1 show ?thesis by blast
    qed
    show "length h \<le> length h'" using len1 len' by simp
    show "\<forall>a<length h. a \<notin> F \<longrightarrow> h' ! a = h ! a"
    proof (intro allI impI)
      fix a assume a: "a < length h" "a \<notin> F"
      with F1 have "a \<notin> F1" by auto
      with a len1 fr' have "h' ! a = h1 ! a" by simp
      with a fr1 show "h' ! a = h ! a" by simp
    qed
  qed
qed

text \<open>Merging a represented source into an owned object gives an owned object for the
  merged value; only the object's own footprint is written, and enough fuel is the depth
  of the source.\<close>

lemma h_baseMerge_refines:
  "srepr R h (HRef s) (JObj S) \<Longrightarrow> own h (HRef d) (JObj D) F
   \<Longrightarrow> F \<inter> R = {} \<Longrightarrow> R \<subseteq> {..<length h} \<Longrightarrow> depth (JObj S) \<le> Suc fuel
   \<Longrightarrow> \<exists>h' F'. h_baseMerge fuel h d s (map fst S) = Some h'
         \<and> own h' (HRef d) (JObj (baseMerge D S)) F'
         \<and> F' \<subseteq> F \<union> {length h..<length h'} \<and> length h \<le> length h'
         \<and> (\<forall>a<length h. a \<notin> F \<longrightarrow> h' ! a = h ! a)"
proof (induction fuel arbitrary: h s S d D F rule: less_induct)
  case (less fuel)
  show ?case
  proof (rule h_baseMerge_loop [OF _ less.prems(1) subset_refl less.prems(2,3,4)])
    show "depth v \<le> fuel" if "(k, v) \<in> set S" for k v
      using depth_child [OF that] less.prems(5) by simp
  qed (rule less.IH)
qed

lemma srepr_truthy: "srepr R h hv v \<Longrightarrow> h_truthy hv = truthy v"
  by (cases v; cases hv) auto

lemma srepr_member:
  assumes "srepr R h (HRef a) (JObj kvs)"
  shows "srepr R h (h_member (h ! a) k) (member (JObj kvs) k)"
proof (cases "map_of kvs k")
  case None
  then have "k \<notin> fst ` set kvs" by (simp add: map_of_eq_None_iff)
  moreover from srepr_obj_cases [OF assms] have "map fst (h ! a) = map fst kvs" by auto
  ultimately have "k \<notin> fst ` set (h ! a)" using keys_eq by blast
  then have "map_of (h ! a) k = None" by (simp add: map_of_eq_None_iff)
  with None show ?thesis by (simp add: h_member_def)
next
  case (Some v)
  then have "(k, v) \<in> set kvs" by (rule map_of_SomeD)
  with srepr_obj_cases [OF assms] have "srepr R h (h_member (h ! a) k) v" by auto
  with Some show ?thesis by simp
qed

lemma depth_member: "depth (member v k) \<le> depth v"
proof (cases v)
  case (JObj kvs)
  show ?thesis
  proof (cases "map_of kvs k")
    case None
    with JObj show ?thesis by simp
  next
    case (Some w)
    then have "(k, w) \<in> set kvs" by (rule map_of_SomeD)
    from depth_child [OF this] Some JObj show ?thesis by simp
  qed
qed simp_all

lemma foldl_assign_leaves:
  assumes "own h (HRef d) (JObj D) F" and "\<And>k v kvs. (k, v) \<in> set es \<Longrightarrow> v \<noteq> JObj kvs"
  shows "\<exists>h' F'. foldl (\<lambda>h (key, c). h_assignMergeValue h d key c) h
              (map (\<lambda>(k, v). (k, hval_of v)) es) = h'
     \<and> own h' (HRef d) (JObj (baseMerge D es)) F' \<and> F' \<subseteq> F \<and> length h' = length h
     \<and> (\<forall>a. a \<noteq> d \<longrightarrow> h' ! a = h ! a)"
  using assms
proof (induction es arbitrary: h D F)
  case Nil
  then show ?case by auto
next
  case (Cons e es)
  obtain k v where e: "e = (k, v)" by (cases e)
  have leaf: "\<And>kvs. v \<noteq> JObj kvs" using Cons.prems(2) [of k v] e by simp
  let ?h1 = "h_assignMergeValue h d k (hval_of v)"
  from own_assign_leaf [OF Cons.prems(1) leaf, of k] obtain F1 where
    o1: "own ?h1 (HRef d) (JObj (assignMergeValue D k v)) F1" and F1: "F1 \<subseteq> F"
    by blast
  have D1: "baseMerge D (e # es) = baseMerge (assignMergeValue D k v) es"
    using leaf by (cases v) (auto simp: e)
  from Cons.IH [OF o1] Cons.prems(2) e obtain F' where
    "own (foldl (\<lambda>h (key, c). h_assignMergeValue h d key c) ?h1
              (map (\<lambda>(k, v). (k, hval_of v)) es)) (HRef d)
        (JObj (baseMerge (assignMergeValue D k v) es)) F'"
    and "F' \<subseteq> F1"
    and "length (foldl (\<lambda>h (key, c). h_assignMergeValue h d key c) ?h1
              (map (\<lambda>(k, v). (k, hval_of v)) es)) = length ?h1"
    and "\<forall>a. a \<noteq> d \<longrightarrow> foldl (\<lambda>h (key, c). h_assignMergeValue h d key c) ?h1
              (map (\<lambda>(k, v). (k, hval_of v)) es) ! a = ?h1 ! a"
    by auto
  with F1 show ?case
    unfolding D1 by (auto simp: e h_assignMergeValue_frame)
qed

text \<open>One source of \<open>merge\<close>.\<close>

lemma h_merge_source_refines:
  assumes src: "srepr R h hv v" and own: "own h (HRef d) (JObj D) F"
    and FR: "F \<inter> R = {}" and R: "R \<subseteq> {..<length h}" and dep: "depth v \<le> Suc fuel"
  shows "\<exists>h' F'. h_merge_source fuel h d hv = Some h'
         \<and> own h' (HRef d) (JObj (baseMerge D (own_entries v))) F'
         \<and> F' \<subseteq> F \<union> {length h..<length h'} \<and> length h \<le> length h'
         \<and> (\<forall>a<length h. a \<notin> F \<longrightarrow> h' ! a = h ! a)"
proof (cases v)
  case (JObj S)
  from srepr_obj_cases [OF src [unfolded JObj]] obtain s where hv: "hv = HRef s"
    and sR: "s \<in> R" and keys: "map fst (h ! s) = map fst S"
    by blast
  from own_obj_ref [OF own] have "d \<in> F" by simp
  with sR FR have ds: "d \<noteq> s" by auto
  from h_baseMerge_refines [OF src [unfolded JObj hv] own FR R dep [unfolded JObj]]
  show ?thesis by (simp add: hv ds keys JObj)
next
  case (JStr str)
  with src have hv: "hv = HStr str" by simp
  have es: "h_string_entries str = map (\<lambda>(k, v). (k, hval_of v)) (own_entries (JStr str))"
    by (simp add: h_string_entries_def comp_def)
  from foldl_assign_leaves [OF own, of "own_entries (JStr str)"]
  obtain h' F' where "foldl (\<lambda>h (key, c). h_assignMergeValue h d key c) h
              (map (\<lambda>(k, v). (k, hval_of v)) (own_entries (JStr str))) = h'"
    and "own h' (HRef d) (JObj (baseMerge D (own_entries (JStr str)))) F'"
    and "F' \<subseteq> F" and "length h' = length h" and "\<forall>a. a \<noteq> d \<longrightarrow> h' ! a = h ! a"
    by auto
  moreover from own_obj_ref [OF own] have "d \<in> F" by simp
  ultimately show ?thesis
    unfolding hv JStr h_merge_source.simps es by (intro exI [of _ h'] exI [of _ F']) auto
qed (use src own in auto)

lemma h_merge_refines:
  assumes "own h (HRef d) (JObj D) F" and "list_all2 (srepr R h) hvs vs"
    and "F \<inter> R = {}" and "R \<subseteq> {..<length h}" and "\<And>v. v \<in> set vs \<Longrightarrow> depth v \<le> Suc fuel"
  shows "\<exists>h' F'. h_merge fuel h d hvs = Some h'
         \<and> own h' (HRef d) (JObj (merge D vs)) F'
         \<and> F' \<subseteq> F \<union> {length h..<length h'} \<and> length h \<le> length h'
         \<and> (\<forall>a<length h. a \<notin> F \<longrightarrow> h' ! a = h ! a)"
  using assms
proof (induction vs arbitrary: hvs h D F)
  case Nil
  then show ?case
    by (intro exI [of _ h] exI [of _ F]) (simp add: merge_def)
next
  case (Cons v vs hvs0)
  from Cons.prems(2) obtain hv hvs where hvs0: "hvs0 = hv # hvs"
    and hv: "srepr R h hv v" and rest: "list_all2 (srepr R h) hvs vs"
    by (auto simp: list_all2_Cons2)
  let ?D1 = "if truthy v then baseMerge D (own_entries v) else D"
  have "\<exists>h1 F1. (\<forall>rest. h_merge fuel h d (hv # rest) = h_merge fuel h1 d rest)
      \<and> own h1 (HRef d) (JObj ?D1) F1
      \<and> F1 \<subseteq> F \<union> {length h..<length h1} \<and> length h \<le> length h1
      \<and> (\<forall>a<length h. a \<notin> F \<longrightarrow> h1 ! a = h ! a)"
  proof (cases "truthy v")
    case True
    then have t: "h_truthy hv" using srepr_truthy [OF hv] by simp
    from h_merge_source_refines [OF hv Cons.prems(1,3,4), of fuel] Cons.prems(5)
    obtain h1 F1 where "h_merge_source fuel h d hv = Some h1"
      and "own h1 (HRef d) (JObj (baseMerge D (own_entries v))) F1"
      and "F1 \<subseteq> F \<union> {length h..<length h1}" and "length h \<le> length h1"
      and "\<forall>a<length h. a \<notin> F \<longrightarrow> h1 ! a = h ! a"
      by auto
    with True t show ?thesis
      by (intro exI [of _ h1] exI [of _ F1]) simp
  next
    case False
    then have "\<not> h_truthy hv" using srepr_truthy [OF hv] by simp
    with False Cons.prems(1) show ?thesis
      by (intro exI [of _ h] exI [of _ F]) simp
  qed
  then obtain h1 F1 where step: "\<And>rest. h_merge fuel h d (hv # rest) = h_merge fuel h1 d rest"
    and own1: "own h1 (HRef d) (JObj ?D1) F1"
    and F1: "F1 \<subseteq> F \<union> {length h..<length h1}" and len1: "length h \<le> length h1"
    and fr1: "\<forall>a<length h. a \<notin> F \<longrightarrow> h1 ! a = h ! a"
    by blast
  have same: "h1 ! a = h ! a" if "a \<in> R" for a
    using that Cons.prems(3,4) fr1 by auto
  have srcs: "list_all2 (srepr R h1) hvs vs"
    using rest by (rule list_all2_mono) (rule srepr_frame, assumption, rule same)
  have FR1: "F1 \<inter> R = {}"
  proof -
    have "{length h..<length h1} \<inter> R = {}" using Cons.prems(4) by auto
    with F1 Cons.prems(3) show ?thesis by blast
  qed
  have R1: "R \<subseteq> {..<length h1}" using Cons.prems(4) len1 by auto
  from Cons.IH [OF own1 srcs FR1 R1] Cons.prems(5)
  obtain h' F' where run: "h_merge fuel h1 d hvs = Some h'"
    and own': "own h' (HRef d) (JObj (merge ?D1 vs)) F'"
    and F': "F' \<subseteq> F1 \<union> {length h1..<length h'}" and len': "length h1 \<le> length h'"
    and fr': "\<forall>a<length h1. a \<notin> F1 \<longrightarrow> h' ! a = h1 ! a"
    by auto
  show ?case
  proof (intro exI conjI)
    show "h_merge fuel h d hvs0 = Some h'" using step run by (simp add: hvs0)
    show "own h' (HRef d) (JObj (merge D (v # vs))) F'"
      using own' by (simp add: merge_def)
    show "F' \<subseteq> F \<union> {length h..<length h'}"
    proof -
      have "{length h..<length h1} \<union> {length h1..<length h'} \<subseteq> {length h..<length h'}"
        using len1 len' by auto
      with F' F1 show ?thesis by blast
    qed
    show "length h \<le> length h'" using len1 len' by simp
    show "\<forall>a<length h. a \<notin> F \<longrightarrow> h' ! a = h ! a"
    proof (intro allI impI)
      fix a assume a: "a < length h" "a \<notin> F"
      with F1 have "a \<notin> F1" by auto
      with a len1 fr' have "h' ! a = h1 ! a" by simp
      with a fr1 show "h' ! a = h ! a" by simp
    qed
  qed
qed

lemma srepr_num: "srepr R h hv v \<Longrightarrow> hv = HNum n \<longleftrightarrow> v = JNum n"
  by (cases v; cases hv) auto

lemma selector_predicates:
  assumes "srepr R h (HRef attrs) (JObj attributes)"
  shows "(map_of h_selectorMapping selector = None \<longleftrightarrow> map_of selectorMapping selector = None)
    \<and> (\<forall>p q. map_of h_selectorMapping selector = Some p \<longrightarrow> map_of selectorMapping selector = Some q
          \<longrightarrow> p (h ! attrs) = q attributes)"
proof -
  have L: "h_member (h ! attrs) ''level'' = HNum n \<longleftrightarrow> member (JObj attributes) ''level'' = JNum n" for n
    using srepr_member [OF assms, of "''level''"] by (rule srepr_num)
  show ?thesis
    unfolding h_selectorMapping_def selectorMapping_def
    by (auto simp: L simp del: member.simps)
qed

lemma h_merge_styles_refines:
  assumes own: "own h (HRef acc) (JObj A) F" and src: "srepr R h hv v"
    and FR: "F \<inter> R = {}" and R: "R \<subseteq> {..<length h}" and dep: "depth v \<le> Suc fuel"
  shows "\<exists>h' r. h_merge_styles fuel h acc hv = Some (h', r) \<and> length h \<le> length h'
     \<and> (\<forall>a<length h. a \<notin> F \<longrightarrow> h' ! a = h ! a)
     \<and> (case merge_styles A v of
          Inl e \<Rightarrow> r = Some e
        | Inr A' \<Rightarrow> r = None \<and> (\<exists>F'. own h' (HRef acc) (JObj A') F'
                                   \<and> F' \<subseteq> F \<union> {length h..<length h'}))"
proof (cases v)
  case (JObj kvs)
  from srepr_obj_cases [OF src [unfolded JObj]] obtain a where hv: "hv = HRef a" by blast
  have st: "list_all2 (srepr R h) [h_member (h ! a) ''styles''] [member v ''styles'']"
    using srepr_member [OF src [unfolded JObj hv], of "''styles''"] by (simp add: JObj del: member.simps)
  have "depth (member v ''styles'') \<le> Suc fuel"
    using depth_member [of v "''styles''"] dep by simp
  with h_merge_refines [OF own st FR R, of fuel]
  obtain h' F' where "h_merge fuel h acc [h_member (h ! a) ''styles''] = Some h'"
    and "own h' (HRef acc) (JObj (merge A [member v ''styles''])) F'"
    and "F' \<subseteq> F \<union> {length h..<length h'}" and "length h \<le> length h'"
    and "\<forall>a<length h. a \<notin> F \<longrightarrow> h' ! a = h ! a"
    by auto
  then show ?thesis
    by (intro exI [of _ h'] exI [of _ None]) (auto simp: hv JObj simp del: member.simps)
next
  case JUndefined
  with src show ?thesis by simp
next
  case JNull
  with src show ?thesis by simp
next
  case (JBool x)
  with src own show ?thesis
    by (intro exI [of _ h] exI [of _ None]) (auto simp: merge_def)
next
  case (JNum x)
  with src own show ?thesis
    by (intro exI [of _ h] exI [of _ None]) (auto simp: merge_def)
next
  case (JStr x)
  with src own show ?thesis
    by (intro exI [of _ h] exI [of _ None]) (auto simp: merge_def)
qed

lemma h_selector_callback_refines:
  assumes own: "own h (HRef acc) (JObj A) F" and src: "srepr R h hv v"
    and attrs: "srepr R h (HRef attrs) (JObj attributes)"
    and FR: "F \<inter> R = {}" and R: "R \<subseteq> {..<length h}" and dep: "depth v \<le> Suc fuel"
  shows "\<exists>h' r. h_selector_callback fuel h blockName attrs acc hv selector = Some (h', r)
     \<and> length h \<le> length h'
     \<and> (\<forall>a<length h. a \<notin> F \<longrightarrow> h' ! a = h ! a)
     \<and> (case selector_callback blockName attributes A v selector of
          Inl e \<Rightarrow> r = Some e
        | Inr A' \<Rightarrow> r = None \<and> (\<exists>F'. own h' (HRef acc) (JObj A') F'
                                   \<and> F' \<subseteq> F \<union> {length h..<length h'}))"
proof -
  note ms = h_merge_styles_refines [OF own src FR R dep]
  have keep: "\<exists>h' r. Some (h, None) = Some (h', r) \<and> length h \<le> length h'
     \<and> (\<forall>a<length h. a \<notin> F \<longrightarrow> h' ! a = h ! a)
     \<and> r = None \<and> (\<exists>F'. own h' (HRef acc) (JObj A) F' \<and> F' \<subseteq> F \<union> {length h..<length h'})"
    using own by auto
  note sp = selector_predicates [OF attrs, of selector]
  show ?thesis
  proof (cases "selector = blockName")
    case True
    with ms show ?thesis by (simp add: h_selector_callback_def selector_callback_def)
  next
    case ne: False
    show ?thesis
    proof (cases "startsWith selector blockName")
      case False
      with ne keep show ?thesis by (simp add: h_selector_callback_def selector_callback_def)
    next
      case True
      show ?thesis
      proof (cases "map_of selectorMapping selector")
        case None
        with sp have "map_of h_selectorMapping selector = None" by simp
        with None ne True show ?thesis
          by (simp add: h_selector_callback_def selector_callback_def)
      next
        case (Some q)
        with sp obtain p where p: "map_of h_selectorMapping selector = Some p" by auto
        with sp Some have pq: "p (h ! attrs) = q attributes" by simp
        show ?thesis
        proof (cases "q attributes")
          case True
          with ms pq p Some ne \<open>startsWith selector blockName\<close> show ?thesis
            by (simp add: h_selector_callback_def selector_callback_def)
        next
          case False
          with keep pq p Some ne \<open>startsWith selector blockName\<close> show ?thesis
            by (simp add: h_selector_callback_def selector_callback_def)
        qed
      qed
    qed
  qed
qed

lemma h_reduce_refines:
  "own h (HRef acc) (JObj A) F \<Longrightarrow> srepr R h (HRef g) (JObj GS) \<Longrightarrow> set GS2 \<subseteq> set GS
   \<Longrightarrow> srepr R h (HRef attrs) (JObj attributes) \<Longrightarrow> F \<inter> R = {} \<Longrightarrow> R \<subseteq> {..<length h}
   \<Longrightarrow> (\<And>k v. (k, v) \<in> set GS2 \<Longrightarrow> depth v \<le> Suc fuel)
   \<Longrightarrow> \<exists>h' r. h_reduce fuel h blockName attrs acc g (map fst GS2) = Some (h', r)
     \<and> length h \<le> length h'
     \<and> (\<forall>a<length h. a \<notin> F \<longrightarrow> h' ! a = h ! a)
     \<and> (case reduce GS2 (selector_callback blockName attributes) A of
          Inl e \<Rightarrow> r = Some e
        | Inr A' \<Rightarrow> r = None \<and> (\<exists>F'. own h' (HRef acc) (JObj A') F'
                                   \<and> F' \<subseteq> F \<union> {length h..<length h'}))"
proof (induction GS2 arbitrary: h A F)
  case Nil
  then show ?case by auto
next
  case (Cons e GS2)
  obtain k v where e: "e = (k, v)" by (cases e)
  from Cons.prems(3) e have kv: "(k, v) \<in> set GS" and sub: "set GS2 \<subseteq> set GS" by auto
  from srepr_obj_cases [OF Cons.prems(2)] kv have sv: "srepr R h (h_member (h ! g) k) v"
    by auto
  have dep: "depth v \<le> Suc fuel" using Cons.prems(7) [of k v] e by simp
  from h_selector_callback_refines [OF Cons.prems(1) sv Cons.prems(4,5,6) dep, of blockName k]
  obtain h1 r1 where cb: "h_selector_callback fuel h blockName attrs acc (h_member (h ! g) k) k = Some (h1, r1)"
    and len1: "length h \<le> length h1"
    and fr1: "\<forall>a<length h. a \<notin> F \<longrightarrow> h1 ! a = h ! a"
    and res1: "case selector_callback blockName attributes A v k of
          Inl e \<Rightarrow> r1 = Some e
        | Inr A' \<Rightarrow> r1 = None \<and> (\<exists>F'. own h1 (HRef acc) (JObj A') F'
                                   \<and> F' \<subseteq> F \<union> {length h..<length h1})"
    by blast
  show ?case
  proof (cases "selector_callback blockName attributes A v k")
    case (Inl err)
    with res1 have "r1 = Some err" by simp
    with cb len1 fr1 Inl show ?thesis by (simp add: e)
  next
    case (Inr A1)
    with res1 obtain F1 where r1: "r1 = None" and own1: "own h1 (HRef acc) (JObj A1) F1"
      and F1: "F1 \<subseteq> F \<union> {length h..<length h1}"
      by auto
    have same: "h1 ! a = h ! a" if "a \<in> R" for a
      using that Cons.prems(5,6) fr1 by auto
    have g1: "srepr R h1 (HRef g) (JObj GS)"
      using Cons.prems(2) by (rule srepr_frame) (rule same)
    have at1: "srepr R h1 (HRef attrs) (JObj attributes)"
      using Cons.prems(4) by (rule srepr_frame) (rule same)
    have FR1: "F1 \<inter> R = {}"
    proof -
      have "{length h..<length h1} \<inter> R = {}" using Cons.prems(6) by auto
      with F1 Cons.prems(5) show ?thesis by blast
    qed
    have R1: "R \<subseteq> {..<length h1}" using Cons.prems(6) len1 by auto
    from Cons.IH [OF own1 g1 sub at1 FR1 R1] Cons.prems(7) e
    obtain h' r where run: "h_reduce fuel h1 blockName attrs acc g (map fst GS2) = Some (h', r)"
      and len': "length h1 \<le> length h'"
      and fr': "\<forall>a<length h1. a \<notin> F1 \<longrightarrow> h' ! a = h1 ! a"
      and res: "case reduce GS2 (selector_callback blockName attributes) A1 of
          Inl e \<Rightarrow> r = Some e
        | Inr A' \<Rightarrow> r = None \<and> (\<exists>F'. own h' (HRef acc) (JObj A') F'
                                   \<and> F' \<subseteq> F1 \<union> {length h1..<length h'})"
      by auto
    have incl: "F1 \<union> {length h1..<length h'} \<subseteq> F \<union> {length h..<length h'}"
    proof -
      have "{length h..<length h1} \<union> {length h1..<length h'} \<subseteq> {length h..<length h'}"
        using len1 len' by auto
      with F1 show ?thesis by blast
    qed
    have frame: "\<forall>a<length h. a \<notin> F \<longrightarrow> h' ! a = h ! a"
    proof (intro allI impI)
      fix a assume a: "a < length h" "a \<notin> F"
      with F1 have "a \<notin> F1" by auto
      with a len1 fr' have "h' ! a = h1 ! a" by simp
      with a fr1 show "h' ! a = h ! a" by simp
    qed
    show ?thesis
    proof (intro exI conjI)
      show "h_reduce fuel h blockName attrs acc g (map fst (e # GS2)) = Some (h', r)"
        using cb r1 run by (simp add: e)
      show "length h \<le> length h'" using len1 len' by simp
      show "\<forall>a<length h. a \<notin> F \<longrightarrow> h' ! a = h ! a" by (rule frame)
      show "case reduce (e # GS2) (selector_callback blockName attributes) A of
          Inl e \<Rightarrow> r = Some e
        | Inr A' \<Rightarrow> r = None \<and> (\<exists>F'. own h' (HRef acc) (JObj A') F'
                                   \<and> F' \<subseteq> F \<union> {length h..<length h'})"
        using res incl Inr by (auto simp: e split: sum.splits)
    qed
  qed
qed

lemma h_globalBlockSpecificStyles_refines:
  assumes gs: "srepr R h gs GS" and attrs: "srepr R h (HRef attrs) (JObj attributes)"
    and R: "R \<subseteq> {..<length h}" and dep: "depth GS \<le> Suc fuel"
  shows "\<exists>h' r. h_globalBlockSpecificStyles fuel h blockName attrs gs = Some (h', r)
     \<and> length h < length h' \<and> (\<forall>a<length h. h' ! a = h ! a)
     \<and> (case globalBlockSpecificStyles blockName attributes GS of
          Inl e \<Rightarrow> r = Inl e
        | Inr T \<Rightarrow> r = Inr (length h)
            \<and> (\<exists>F. own h' (HRef (length h)) (JObj T) F \<and> F \<subseteq> {length h..<length h'}))"
proof (cases GS)
  case (JObj kvs)
  from srepr_obj_cases [OF gs [unfolded JObj]] obtain g where g: "gs = HRef g"
    and keys: "map fst (h ! g) = map fst kvs"
    by blast
  let ?h0 = "h @ [[]]"
  have same: "?h0 ! a = h ! a" if "a \<in> R" for a
    using that R by (auto simp: nth_append)
  have g0: "srepr R ?h0 (HRef g) (JObj kvs)"
    using gs [unfolded JObj g] by (rule srepr_frame) (rule same)
  have attrs0: "srepr R ?h0 (HRef attrs) (JObj attributes)"
    using attrs by (rule srepr_frame) (rule same)
  have FR: "{length h} \<inter> R = {}" using R by auto
  have R0: "R \<subseteq> {..<length ?h0}" using R by auto
  have d: "depth v \<le> Suc fuel" if "(k, v) \<in> set kvs" for k v
    using depth_child [OF that] dep JObj by simp
  have "\<exists>h' r. h_reduce fuel ?h0 blockName attrs (length h) g (map fst kvs) = Some (h', r)
     \<and> length ?h0 \<le> length h'
     \<and> (\<forall>a<length ?h0. a \<notin> {length h} \<longrightarrow> h' ! a = ?h0 ! a)
     \<and> (case reduce kvs (selector_callback blockName attributes) [] of
          Inl e \<Rightarrow> r = Some e
        | Inr A' \<Rightarrow> r = None \<and> (\<exists>F'. own h' (HRef (length h)) (JObj A') F'
                                   \<and> F' \<subseteq> {length h} \<union> {length ?h0..<length h'}))"
    by (rule h_reduce_refines [OF own_empty g0 subset_refl attrs0 FR R0]) (rule d)
  then obtain h' r where run: "h_reduce fuel ?h0 blockName attrs (length h) g (map fst kvs) = Some (h', r)"
    and len: "length ?h0 \<le> length h'"
    and fr: "\<forall>a<length ?h0. a \<notin> {length h} \<longrightarrow> h' ! a = ?h0 ! a"
    and res: "case reduce kvs (selector_callback blockName attributes) [] of
          Inl e \<Rightarrow> r = Some e
        | Inr A' \<Rightarrow> r = None \<and> (\<exists>F'. own h' (HRef (length h)) (JObj A') F'
                                   \<and> F' \<subseteq> {length h} \<union> {length ?h0..<length h'})"
    by blast
  have incl: "{length h} \<union> {length ?h0..<length h'} \<subseteq> {length h..<length h'}"
    using len by auto
  have frame: "\<forall>a<length h. h' ! a = h ! a"
    using fr by (auto simp: nth_append)
  show ?thesis
  proof (cases "reduce kvs (selector_callback blockName attributes) []")
    case (Inl e)
    with res run len frame show ?thesis by (simp add: g JObj keys)
  next
    case (Inr T)
    with res obtain F' where r: "r = None" and o: "own h' (HRef (length h)) (JObj T) F'"
      and F': "F' \<subseteq> {length h} \<union> {length ?h0..<length h'}"
      by auto
    from F' incl have "F' \<subseteq> {length h..<length h'}" by (rule subset_trans)
    with o have "\<exists>F. own h' (HRef (length h)) (JObj T) F \<and> F \<subseteq> {length h..<length h'}"
      by blast
    with r run len frame Inr show ?thesis
      by (intro exI [of _ h'] exI [of _ "Inr (length h)"]) (simp add: g JObj keys)
  qed
next
  case (JStr str)
  with gs have "gs = HStr str" by simp
  with JStr own_empty [of h] show ?thesis
    by (cases "str = []") (auto simp: nth_append)
qed (use gs own_empty [of h] in \<open>auto simp: nth_append\<close>)

lemma h_global_styles_repr:
  assumes "srepr R h gs GS"
  shows "srepr R h (h_global_styles h gs) (global_styles GS)"
proof (cases GS)
  case (JObj kvs)
  from srepr_obj_cases [OF assms [unfolded JObj]] obtain g where g: "gs = HRef g" by blast
  note m = srepr_member [OF assms [unfolded JObj g], of "''global''"]
  show ?thesis
  proof (cases "member (JObj kvs) ''global''")
    case inner: (JObj kvs')
    from srepr_obj_cases [OF m [unfolded inner]] obtain gl where
      gl: "h_member (h ! g) ''global'' = HRef gl" by blast
    from srepr_member [OF m [unfolded inner gl], of "''styles''"] inner gl
    show ?thesis
      by (simp add: JObj g global_styles_def del: member.simps)
  qed (use m in \<open>auto simp: JObj g global_styles_def simp del: member.simps(1)\<close>)
qed (use assms in \<open>auto simp: global_styles_def\<close>)

lemma depth_global_styles: "depth (global_styles GS) \<le> depth GS"
proof -
  have "depth (member (member GS ''global'') ''styles'') \<le> depth GS"
    using depth_member [of "member GS ''global''" "''styles''"] depth_member [of GS "''global''"]
    by simp
  then show ?thesis by (simp add: global_styles_def Let_def del: member.simps)
qed

lemma depth_or_empty: "depth (or_empty v) \<le> Suc (depth v)"
  by (simp add: or_empty_def)

lemma h_or_empty_repr:
  assumes "srepr R h hv v" and "h_or_empty h hv = (h', hv')"
  shows "length h \<le> length h' \<and> (\<forall>a<length h. h' ! a = h ! a)
     \<and> srepr (R \<union> {length h..<length h'}) h' hv' (or_empty v)"
proof (cases "truthy v")
  case True
  then have "h_truthy hv" using srepr_truthy [OF assms(1)] by simp
  with assms(2) True srepr_mono [OF assms(1), of "R \<union> {length h..<length h'}"] show ?thesis
    by (auto simp: h_or_empty_def or_empty_def)
next
  case False
  then have "\<not> h_truthy hv" using srepr_truthy [OF assms(1)] by simp
  with assms(2) False show ?thesis
    by (auto simp: h_or_empty_def or_empty_def nth_append)
qed

lemma h_globalStylesBlock_refines:
  assumes gs: "srepr {..<length h} h gs GS" and ctx: "srepr {..<length h} h ctx CTX"
    and attrs: "srepr {..<length h} h (HRef attrs) (JObj attributes)"
    and fuel: "depth GS \<le> fuel" "depth CTX \<le> fuel" "depth (JObj attributes) \<le> fuel"
      "\<And>T. globalBlockSpecificStyles blockName attributes GS = Inr T \<Longrightarrow> depth (JObj T) \<le> fuel"
  shows "\<exists>h' r. h_globalStylesBlock fuel h blockName attrs gs ctx = Some (h', r)
     \<and> length h \<le> length h' \<and> (\<forall>a<length h. h' ! a = h ! a)
     \<and> (case globalStylesBlock blockName attributes GS CTX of
          Inl e \<Rightarrow> r = Inl e
        | Inr result \<Rightarrow>
            \<exists>res F. r = Inr res \<and> own h' (HRef res) (JObj result) F
              \<and> F \<subseteq> {length h..<length h'})"
proof -
  let ?R = "{..<length h}"
  have dGS: "depth GS \<le> Suc fuel" using fuel(1) by simp
  from h_globalBlockSpecificStyles_refines [OF gs attrs subset_refl dGS, of blockName]
  obtain h1 r1 where run1: "h_globalBlockSpecificStyles fuel h blockName attrs gs = Some (h1, r1)"
    and len1: "length h < length h1" and fr1: "\<forall>a<length h. h1 ! a = h ! a"
    and res1: "case globalBlockSpecificStyles blockName attributes GS of
          Inl e \<Rightarrow> r1 = Inl e
        | Inr T \<Rightarrow> r1 = Inr (length h)
            \<and> (\<exists>F. own h1 (HRef (length h)) (JObj T) F \<and> F \<subseteq> {length h..<length h1})"
    by blast
  show ?thesis
  proof (cases "globalBlockSpecificStyles blockName attributes GS")
    case (Inl e)
    with res1 have "r1 = Inl e" by simp
    with run1 len1 fr1 Inl show ?thesis
      by (simp add: h_globalStylesBlock_def globalStylesBlock_def)
  next
    case (Inr T)
    with res1 obtain Facc where r1: "r1 = Inr (length h)"
      and ownacc: "own h1 (HRef (length h)) (JObj T) Facc"
      and Facc: "Facc \<subseteq> {length h..<length h1}"
      by auto
    let ?result = "length h1"
    let ?h2 = "h1 @ [[]]"
    have fr2: "?h2 ! a = h ! a" if "a < length h" for a
      using that fr1 len1 by (simp add: nth_append)
    have gs2: "srepr ?R ?h2 gs GS"
      using gs by (rule srepr_frame) (use fr2 in auto)
    obtain h3 global where o3: "h_or_empty ?h2 (h_global_styles ?h2 gs) = (h3, global)"
      by (cases "h_or_empty ?h2 (h_global_styles ?h2 gs)")
    from h_or_empty_repr [OF h_global_styles_repr [OF gs2] o3]
    have len3: "length ?h2 \<le> length h3" and fr3: "\<forall>a<length ?h2. h3 ! a = ?h2 ! a"
      and g3: "srepr (?R \<union> {length ?h2..<length h3}) h3 global (or_empty (global_styles GS))"
      by auto
    have fr3': "h3 ! a = h ! a" if "a < length h" for a
    proof -
      from that len1 have "a < length ?h2" by simp
      with fr3 have "h3 ! a = ?h2 ! a" by blast
      with fr2 [OF that] show ?thesis by simp
    qed
    have ctx3: "srepr ?R h3 ctx CTX"
      using ctx by (rule srepr_frame) (use fr3' in auto)
    obtain h4 inherited where o4: "h_or_empty h3 ctx = (h4, inherited)"
      by (cases "h_or_empty h3 ctx")
    from h_or_empty_repr [OF ctx3 o4]
    have len4: "length h3 \<le> length h4" and fr4: "\<forall>a<length h3. h4 ! a = h3 ! a"
      and c4: "srepr (?R \<union> {length h3..<length h4}) h4 inherited (or_empty CTX)"
      by auto
    have fr4': "h4 ! a = h ! a" if "a < length h" for a
    proof -
      from that len1 len3 have "a < length h3" by simp
      with fr4 have "h4 ! a = h3 ! a" by blast
      with fr3' [OF that] show ?thesis by simp
    qed
    have attrs4: "srepr ?R h4 (HRef attrs) (JObj attributes)"
      using attrs by (rule srepr_frame) (use fr4' in auto)
    obtain h5 local where o5: "h_or_empty h4 (h_member (h4 ! attrs) ''style'') = (h5, local)"
      by (cases "h_or_empty h4 (h_member (h4 ! attrs) ''style'')")
    from h_or_empty_repr [OF srepr_member [OF attrs4] o5]
    have len5: "length h4 \<le> length h5" and fr5: "\<forall>a<length h4. h5 ! a = h4 ! a"
      and l5: "srepr (?R \<union> {length h4..<length h5}) h5 local
                 (or_empty (member (JObj attributes) ''style''))"
      by auto
    let ?R' = "{..<length h5} - {?result}"
    have lens: "length h < ?result" "?result < length ?h2" "length ?h2 \<le> length h3"
      "length h3 \<le> length h4" "length h4 \<le> length h5"
      using len1 len3 len4 len5 by simp_all
    have fr35: "h5 ! a = h3 ! a" if "a < length h3" for a
      using that fr4 fr5 len4 by auto
    have fr25: "h5 ! a = ?h2 ! a" if "a < length ?h2" for a
      using that fr3 fr35 len3 by auto
    have fr15: "h5 ! a = h1 ! a" if "a < length h1" for a
      using that fr25 [of a] by (simp add: nth_append)
    have s1: "srepr ?R' h5 global (or_empty (global_styles GS))"
    proof (rule srepr_mono)
      show "srepr (?R \<union> {length ?h2..<length h3}) h5 global (or_empty (global_styles GS))"
        using g3 by (rule srepr_frame) (use fr35 lens in auto)
      show "?R \<union> {length ?h2..<length h3} \<subseteq> ?R'" using lens by auto
    qed
    have s2: "srepr ?R' h5 inherited (or_empty CTX)"
    proof (rule srepr_mono)
      show "srepr (?R \<union> {length h3..<length h4}) h5 inherited (or_empty CTX)"
        using c4 by (rule srepr_frame) (use fr5 lens in auto)
      show "?R \<union> {length h3..<length h4} \<subseteq> ?R'" using lens by auto
    qed
    have s3: "srepr ?R' h5 (HRef (length h)) (JObj T)"
    proof (rule own_imp_srepr)
      show "own h5 (HRef (length h)) (JObj T) Facc"
        using ownacc
      proof (rule own_frame)
        show "length h1 \<le> length h5" using lens by simp
        show "h5 ! a = h1 ! a" if "a \<in> Facc" for a
          using that Facc fr15 by auto
      qed
      show "Facc \<subseteq> ?R'" using Facc lens by auto
    qed
    have s4: "srepr ?R' h5 local (or_empty (member (JObj attributes) ''style''))"
      using l5 by (rule srepr_mono) (use lens in auto)
    have srcs: "list_all2 (srepr ?R' h5) [global, inherited, HRef (length h), local]
        (style_layers GS CTX T attributes)"
      using s1 s2 s3 s4 by (simp add: style_layers_def del: member.simps srepr.simps)
    have ownr: "own h5 (HRef ?result) (JObj []) {?result}"
      using own_empty [of h1]
    proof (rule own_frame)
      show "length ?h2 \<le> length h5" using lens by simp
      show "h5 ! a = ?h2 ! a" if "a \<in> {?result}" for a
        using that fr25 by simp
    qed
    have deps: "depth v \<le> Suc fuel" if "v \<in> set (style_layers GS CTX T attributes)" for v
    proof -
      have "depth (or_empty (global_styles GS)) \<le> Suc fuel"
        using depth_or_empty [of "global_styles GS"] depth_global_styles [of GS] fuel(1) by simp
      moreover have "depth (or_empty CTX) \<le> Suc fuel"
        using depth_or_empty [of CTX] fuel(2) by simp
      moreover have "depth (JObj T) \<le> Suc fuel"
        using fuel(4) [OF Inr] by simp
      moreover have "depth (or_empty (member (JObj attributes) ''style'')) \<le> Suc fuel"
        using depth_or_empty [of "member (JObj attributes) ''style''"]
          depth_member [of "JObj attributes" "''style''"] fuel(3) by simp
      ultimately show ?thesis
        using that by (auto simp: style_layers_def simp del: member.simps depth.simps)
    qed
    have "\<exists>h6 F6. h_merge fuel h5 ?result [global, inherited, HRef (length h), local] = Some h6
         \<and> own h6 (HRef ?result) (JObj (merge [] (style_layers GS CTX T attributes))) F6
         \<and> F6 \<subseteq> {?result} \<union> {length h5..<length h6} \<and> length h5 \<le> length h6
         \<and> (\<forall>a<length h5. a \<notin> {?result} \<longrightarrow> h6 ! a = h5 ! a)"
      by (rule h_merge_refines [OF ownr srcs]) (use deps in auto)
    then obtain h6 F6 where
      run6: "h_merge fuel h5 ?result [global, inherited, HRef (length h), local] = Some h6"
      and own6: "own h6 (HRef ?result) (JObj (merge [] (style_layers GS CTX T attributes))) F6"
      and F6: "F6 \<subseteq> {?result} \<union> {length h5..<length h6}" and len6: "length h5 \<le> length h6"
      and fr6: "\<forall>a<length h5. a \<notin> {?result} \<longrightarrow> h6 ! a = h5 ! a"
      by blast
    have val: "globalStylesBlock blockName attributes GS CTX
        = Inr (merge [] (style_layers GS CTX T attributes))"
      by (simp add: globalStylesBlock_def Inr)
    have run: "h_globalStylesBlock fuel h blockName attrs gs ctx = Some (h6, Inr ?result)"
      by (simp add: h_globalStylesBlock_def run1 r1 Let_def o3 o4 o5 run6 del: h_merge.simps)
    have frame: "\<forall>a<length h. h6 ! a = h ! a"
    proof (intro allI impI)
      fix a assume a: "a < length h"
      with lens have "a < length h5" "a \<noteq> ?result" "a < length h1" by auto
      with fr6 fr15 have "h6 ! a = h1 ! a" by simp
      with fr1 a show "h6 ! a = h ! a" by simp
    qed
    have F6': "F6 \<subseteq> {length h..<length h6}"
    proof -
      have "{?result} \<union> {length h5..<length h6} \<subseteq> {length h..<length h6}"
        using lens len6 by auto
      with F6 show ?thesis by (rule subset_trans)
    qed
    show ?thesis
      unfolding val run using frame own6 F6' lens len6 by auto
  qed
qed

text \<open>
  C9. No side effects. Let the heap hold the block's attributes, the global styles
  setting and the context value as plain data. With enough fuel the computation
  returns; every object of the heap it started from is as it was, so none of the
  inputs is changed; it raises exactly when the computation on values does, and
  otherwise returns a new object that stands for \<open>globalStylesBlock\<close> of the values of
  the inputs. Run again on the heap it left, it does all this again: the two results
  stand for the same value.
\<close>

theorem globalStylesBlock_pure:
  assumes gs: "srepr {..<length h} h gs GS" and ctx: "srepr {..<length h} h ctx CTX"
    and attrs: "srepr {..<length h} h (HRef attrs) (JObj attributes)"
  shows "\<exists>fuel0. \<forall>fuel\<ge>fuel0. \<exists>h' r.
       h_globalStylesBlock fuel h blockName attrs gs ctx = Some (h', r)
     \<and> length h \<le> length h' \<and> (\<forall>a<length h. h' ! a = h ! a)
     \<and> (case globalStylesBlock blockName attributes GS CTX of
          Inl e \<Rightarrow> r = Inl e
        | Inr result \<Rightarrow>
            \<exists>res F. r = Inr res \<and> own h' (HRef res) (JObj result) F
              \<and> F \<subseteq> {length h..<length h'})
     \<and> (\<exists>h'' r'.
           h_globalStylesBlock fuel h' blockName attrs gs ctx = Some (h'', r')
         \<and> (\<forall>a<length h'. h'' ! a = h' ! a)
         \<and> (case globalStylesBlock blockName attributes GS CTX of
              Inl e \<Rightarrow> r' = Inl e
            | Inr result \<Rightarrow>
                \<exists>res' F'. r' = Inr res' \<and> own h'' (HRef res') (JObj result) F'
                  \<and> F' \<subseteq> {length h'..<length h''}))"
proof -
  define fuel0 where "fuel0 = depth GS + depth CTX + depth (JObj attributes)
    + (case globalBlockSpecificStyles blockName attributes GS of
         Inl e \<Rightarrow> 0 | Inr T \<Rightarrow> depth (JObj T))"
  show ?thesis
  proof (intro exI [of _ fuel0] allI impI)
    fix fuel assume "fuel0 \<le> fuel"
    then have fuel: "depth GS \<le> fuel" "depth CTX \<le> fuel" "depth (JObj attributes) \<le> fuel"
      "\<And>T. globalBlockSpecificStyles blockName attributes GS = Inr T \<Longrightarrow> depth (JObj T) \<le> fuel"
      by (simp_all add: fuel0_def del: depth.simps)
    from h_globalStylesBlock_refines [OF gs ctx attrs fuel, of blockName]
    obtain h' r where run: "h_globalStylesBlock fuel h blockName attrs gs ctx = Some (h', r)"
      and len: "length h \<le> length h'" and fr: "\<forall>a<length h. h' ! a = h ! a"
      and res: "case globalStylesBlock blockName attributes GS CTX of
          Inl e \<Rightarrow> r = Inl e
        | Inr result \<Rightarrow>
            \<exists>res F. r = Inr res \<and> own h' (HRef res) (JObj result) F
              \<and> F \<subseteq> {length h..<length h'}"
      by blast
    have again: "srepr {..<length h'} h' hv v" if "srepr {..<length h} h hv v" for hv v
    proof (rule srepr_mono)
      show "srepr {..<length h} h' hv v"
        using that by (rule srepr_frame) (use fr in auto)
      show "{..<length h} \<subseteq> {..<length h'}" using len by auto
    qed
    from h_globalStylesBlock_refines [OF again [OF gs] again [OF ctx] again [OF attrs] fuel,
        of blockName]
    obtain h'' r' where run': "h_globalStylesBlock fuel h' blockName attrs gs ctx = Some (h'', r')"
      and fr': "\<forall>a<length h'. h'' ! a = h' ! a"
      and res': "case globalStylesBlock blockName attributes GS CTX of
          Inl e \<Rightarrow> r' = Inl e
        | Inr result \<Rightarrow>
            \<exists>res' F'. r' = Inr res' \<and> own h'' (HRef res') (JObj result) F'
              \<and> F' \<subseteq> {length h'..<length h''}"
      by blast
    show "\<exists>h' r.
       h_globalStylesBlock fuel h blockName attrs gs ctx = Some (h', r)
     \<and> length h \<le> length h' \<and> (\<forall>a<length h. h' ! a = h ! a)
     \<and> (case globalStylesBlock blockName attributes GS CTX of
          Inl e \<Rightarrow> r = Inl e
        | Inr result \<Rightarrow>
            \<exists>res F. r = Inr res \<and> own h' (HRef res) (JObj result) F
              \<and> F \<subseteq> {length h..<length h'})
     \<and> (\<exists>h'' r'.
           h_globalStylesBlock fuel h' blockName attrs gs ctx = Some (h'', r')
         \<and> (\<forall>a<length h'. h'' ! a = h' ! a)
         \<and> (case globalStylesBlock blockName attributes GS CTX of
              Inl e \<Rightarrow> r' = Inl e
            | Inr result \<Rightarrow>
                \<exists>res' F'. r' = Inr res' \<and> own h'' (HRef res') (JObj result) F'
                  \<and> F' \<subseteq> {length h'..<length h''}))"
      using run len fr res run' fr' res' by blast
  qed
qed

theorem globalStylesBlock_pure_witness:
  "srepr {..<7}
     [[(''style'', HRef 1)], [(''color'', HRef 2)], [(''text'', HStr ''purple'')],
      [(''global'', HRef 4)], [(''styles'', HRef 5)], [(''color'', HRef 6)],
      [(''text'', HStr ''red''), (''link'', HNull)]]
     (HRef 3)
     (JObj [(''global'', JObj [(''styles'',
        JObj [(''color'', JObj [(''text'', JStr ''red''), (''link'', JNull)])])])])
   \<and> srepr {..<7}
     [[(''style'', HRef 1)], [(''color'', HRef 2)], [(''text'', HStr ''purple'')],
      [(''global'', HRef 4)], [(''styles'', HRef 5)], [(''color'', HRef 6)],
      [(''text'', HStr ''red''), (''link'', HNull)]]
     (HRef 0)
     (JObj [(''style'', JObj [(''color'', JObj [(''text'', JStr ''purple'')])])])
   \<and> (\<exists>fuel0. \<forall>fuel\<ge>fuel0. \<exists>h' res F.
        h_globalStylesBlock fuel
          [[(''style'', HRef 1)], [(''color'', HRef 2)], [(''text'', HStr ''purple'')],
           [(''global'', HRef 4)], [(''styles'', HRef 5)], [(''color'', HRef 6)],
           [(''text'', HStr ''red''), (''link'', HNull)]]
          ''core/paragraph'' 0 (HRef 3) HUndefined
        = Some (h', Inr res)
      \<and> take 7 h' =
          [[(''style'', HRef 1)], [(''color'', HRef 2)], [(''text'', HStr ''purple'')],
           [(''global'', HRef 4)], [(''styles'', HRef 5)], [(''color'', HRef 6)],
           [(''text'', HStr ''red''), (''link'', HNull)]]
      \<and> own h' (HRef res)
           (JObj [(''color'', JObj [(''text'', JStr ''purple''), (''link'', JNull)])]) F)
   \<and> h_globalStylesBlock 2
        [[(''style'', HRef 1)], [(''color'', HRef 2)], [(''text'', HStr ''purple'')],
         [(''global'', HRef 4)], [(''styles'', HRef 5)], [(''color'', HRef 6)],
         [(''text'', HStr ''red''), (''link'', HNull)]]
        ''core/paragraph'' 0 (HRef 3) HUndefined
      = Some
         ([[(''style'', HRef 1)], [(''color'', HRef 2)], [(''text'', HStr ''purple'')],
           [(''global'', HRef 4)], [(''styles'', HRef 5)], [(''color'', HRef 6)],
           [(''text'', HStr ''red''), (''link'', HNull)],
           [], [(''color'', HRef 10)], [], [(''text'', HStr ''purple''), (''link'', HNull)]],
          Inr 8)"
proof -
  define h where "h = [[(''style'', HRef 1)], [(''color'', HRef 2)], [(''text'', HStr ''purple'')],
      [(''global'', HRef 4)], [(''styles'', HRef 5)], [(''color'', HRef 6)],
      [(''text'', HStr ''red''), (''link'', HNull)]]"
  define GS where "GS = JObj [(''global'', JObj [(''styles'',
        JObj [(''color'', JObj [(''text'', JStr ''red''), (''link'', JNull)])])])]"
  define attributes where
    "attributes = [(''style'', JObj [(''color'', JObj [(''text'', JStr ''purple'')])])]"
  define result where
    "result = [(''color'', JObj [(''text'', JStr ''purple''), (''link'', JNull)])]"
  have len: "length h = 7" by (simp add: h_def)
  have gs: "srepr {..<length h} h (HRef 3) GS"
    by (simp add: h_def GS_def h_member_def)
  have ctx: "srepr {..<length h} h HUndefined JUndefined"
    by simp
  have attrs: "srepr {..<length h} h (HRef 0) (JObj attributes)"
    by (simp add: h_def attributes_def h_member_def)
  have val: "globalStylesBlock ''core/paragraph'' attributes GS JUndefined = Inr result"
    by (simp add: GS_def attributes_def result_def globalStylesBlock_def selector_callback_def
        startsWith_def style_layers_def or_empty_def global_styles_def merge_def
        assignMergeValue_def baseAssignValue_def)
  have drop: "\<exists>f0::nat. \<forall>f\<ge>f0. \<exists>h' r. A f h' r \<and> B f h' r \<and> C f h' r \<and> D f h' r \<and> E f h' r
      \<Longrightarrow> \<exists>f0. \<forall>f\<ge>f0. \<exists>h' r. A f h' r \<and> B f h' r \<and> C f h' r \<and> D f h' r"
    for A B C D E :: "nat \<Rightarrow> heap \<Rightarrow> error + nat \<Rightarrow> bool"
    by blast
  from drop [OF globalStylesBlock_pure [OF gs ctx attrs, of "''core/paragraph''"]]
  obtain fuel0 where f: "\<And>fuel. fuel0 \<le> fuel \<Longrightarrow> \<exists>h' r.
       h_globalStylesBlock fuel h ''core/paragraph'' 0 (HRef 3) HUndefined = Some (h', r)
     \<and> length h \<le> length h' \<and> (\<forall>a<length h. h' ! a = h ! a)
     \<and> (\<exists>res F. r = Inr res \<and> own h' (HRef res) (JObj result) F
              \<and> F \<subseteq> {length h..<length h'})"
    unfolding val sum.case by blast
  have main: "\<exists>fuel0. \<forall>fuel\<ge>fuel0. \<exists>h' res F.
        h_globalStylesBlock fuel h ''core/paragraph'' 0 (HRef 3) HUndefined = Some (h', Inr res)
      \<and> take 7 h' = h \<and> own h' (HRef res) (JObj result) F"
  proof (intro exI [of _ fuel0] allI impI)
    fix fuel assume "fuel0 \<le> fuel"
    from f [OF this] obtain h' res F where
      run: "h_globalStylesBlock fuel h ''core/paragraph'' 0 (HRef 3) HUndefined = Some (h', Inr res)"
      and l: "length h \<le> length h'" and fr: "\<forall>a<length h. h' ! a = h ! a"
      and own: "own h' (HRef res) (JObj result) F"
      by blast
    have "take 7 h' = h"
    proof (rule nth_equalityI)
      show "length (take 7 h') = length h" using l len by simp
      show "take 7 h' ! i = h ! i" if "i < length (take 7 h')" for i
        using that fr len by simp
    qed
    with run own show "\<exists>h' res F.
        h_globalStylesBlock fuel h ''core/paragraph'' 0 (HRef 3) HUndefined = Some (h', Inr res)
      \<and> take 7 h' = h \<and> own h' (HRef res) (JObj result) F"
      by blast
  qed
  have run2: "h_globalStylesBlock 2
        [[(''style'', HRef 1)], [(''color'', HRef 2)], [(''text'', HStr ''purple'')],
         [(''global'', HRef 4)], [(''styles'', HRef 5)], [(''color'', HRef 6)],
         [(''text'', HStr ''red''), (''link'', HNull)]]
        ''core/paragraph'' 0 (HRef 3) HUndefined
      = Some
         ([[(''style'', HRef 1)], [(''color'', HRef 2)], [(''text'', HStr ''purple'')],
           [(''global'', HRef 4)], [(''styles'', HRef 5)], [(''color'', HRef 6)],
           [(''text'', HStr ''red''), (''link'', HNull)],
           [], [(''color'', HRef 10)], [], [(''text'', HStr ''purple''), (''link'', HNull)]],
          Inr 8)"
    by code_simp
  from gs [unfolded len] attrs [unfolded len] main run2
  show ?thesis
    unfolding h_def GS_def attributes_def result_def by (intro conjI)
qed

end
